theory Spec2Isabelle
  imports Main
begin

section \<open>Tokens and errors\<close>

text \<open>
  A token is a string (\<open>Lit\<close>) or a member of the enum \<^verbatim>\<open>Token\<close>. A \<^verbatim>\<open>Fail\<close> record pairs
  the expected categories with the received token.
\<close>

datatype token = Lit string | EPSILON | ANY | END | NOTHING | EMIT

datatype fail = Fail (expected: "token set") (received: token)

text \<open>
  Every exception the modelled functions of \<^verbatim>\<open>swampymud/util/parser.py\<close> can raise is a
  value of one datatype; a function that can raise returns \<open>error + 'a\<close> with \<open>Inl\<close> for
  the exception.
  \<^item> \<open>IndexError\<close>: a list is read out of range.
  \<^item> \<open>RecursionError\<close>: the recursion limit is exceeded.
  \<^item> \<open>UnpackError\<close>: the \<^verbatim>\<open>ValueError\<close> of \<^verbatim>\<open>rule, = emits\<close> on a tuple of two or more rules.
  \<^item> \<open>EpsilonOnMatchState\<close>: \<^verbatim>\<open>ValueError("Cannot add epsilon transition to state with matches")\<close>.
  \<^item> \<open>EmptyAlternative\<close>, \<open>EmptyAlternate\<close>, \<open>EmptyGroup\<close>: \<^verbatim>\<open>ValueError("empty alternative")\<close>
    of \<^verbatim>\<open>add_alternative\<close>; \<^verbatim>\<open>ValueError("empty alternate")\<close> and \<^verbatim>\<open>ValueError("empty group")\<close> of
    \<^verbatim>\<open>cleanup\<close>.
  \<^item> \<open>AlreadyQuantified\<close>, \<open>ExpectedPredicate\<close>: \<^verbatim>\<open>ValueError("Predicate already has quantifier")\<close>
    and \<^verbatim>\<open>ValueError("Expected predicate before quantifier")\<close> of \<^verbatim>\<open>quantify_last\<close>.
  \<^item> \<open>UnmatchedClose index\<close>: \<^verbatim>\<open>ValueError(f"Unmatched ')' at index [{index}]")\<close>.
  \<^item> \<open>UnrecognizedToken token index\<close>:
    \<^verbatim>\<open>ValueError(f"Unrecognized token {token!r} starting at index [{index}]")\<close>.
  \<^item> \<open>ExpectedClose count index\<close>:
    \<^verbatim>\<open>ValueError(f"Expected {count} ')', but input ended at [{index}]")\<close>.
  \<^item> \<open>ParseError failures\<close>: \<^verbatim>\<open>ParseError\<close>, whose constructor keeps the set of the last
    entries of the stacks it is given.
\<close>

datatype error =
    IndexError
  | RecursionError
  | UnpackError
  | EpsilonOnMatchState
  | EmptyAlternative
  | EmptyAlternate
  | EmptyGroup
  | AlreadyQuantified
  | ExpectedPredicate
  | UnmatchedClose nat
  | UnrecognizedToken string nat
  | ExpectedClose nat nat
  | ParseError "fail set"

section \<open>Tokenizer: \<^verbatim>\<open>split_args\<close>\<close>

text \<open>
  The scanner's three locals. \<open>in_quote\<close> is \<^verbatim>\<open>False\<close> or the quote character that
  opened the span (\<open>None\<close> or \<open>Some q\<close>); \<open>tokens\<close> is the list of tokens built so far,
  the last one being the one under construction.
\<close>

record scan =
  in_quote :: "char option"
  in_token :: bool
  tokens :: "string list"

text \<open>\<^verbatim>\<open>tokens[-1].append(char)\<close>: raises IndexError on an empty list.\<close>

definition append_last :: "string list \<Rightarrow> char \<Rightarrow> error + string list" where
  "append_last ts c =
     (if ts = [] then Inl IndexError else Inr (butlast ts @ [last ts @ [c]]))"

definition is_quote_char :: "char \<Rightarrow> bool" where
  "is_quote_char c \<longleftrightarrow> c = CHR 0x22 \<or> c = CHR 0x27"

definition is_space_char :: "char \<Rightarrow> bool" where
  "is_space_char c \<longleftrightarrow> c = CHR '' '' \<or> c = CHR 0x09 \<or> c = CHR 0x0A \<or> c = CHR 0x0D"

text \<open>One iteration of the \<^verbatim>\<open>for char in string\<close> loop, branches in source order.\<close>

definition scan_char :: "scan \<Rightarrow> char \<Rightarrow> error + scan" where
  "scan_char s c =
     (case in_quote s of
        Some q \<Rightarrow>
          if c = q then Inr (s\<lparr>in_quote := None\<rparr>)
          else (case append_last (tokens s) c of
                  Inl e \<Rightarrow> Inl e
                | Inr ts \<Rightarrow> Inr (s\<lparr>tokens := ts\<rparr>))
      | None \<Rightarrow>
          if is_quote_char c then
            (if in_token s then
               (case append_last (tokens s) c of
                  Inl e \<Rightarrow> Inl e
                | Inr ts \<Rightarrow> Inr (s\<lparr>tokens := ts\<rparr>))
             else Inr (s\<lparr>in_quote := Some c, tokens := tokens s @ [[]]\<rparr>))
          else if is_space_char c then Inr (s\<lparr>in_token := False\<rparr>)
          else if in_token s then
            (case append_last (tokens s) c of
               Inl e \<Rightarrow> Inl e
             | Inr ts \<Rightarrow> Inr (s\<lparr>tokens := ts\<rparr>))
          else Inr (s\<lparr>in_token := True, tokens := tokens s @ [[c]]\<rparr>))"

fun scan_loop :: "scan \<Rightarrow> string \<Rightarrow> error + scan" where
  "scan_loop s [] = Inr s"
| "scan_loop s (c # cs) =
     (case scan_char s c of Inl e \<Rightarrow> Inl e | Inr s' \<Rightarrow> scan_loop s' cs)"

definition split_args :: "string \<Rightarrow> error + string list" where
  "split_args string =
     (case scan_loop \<lparr>in_quote = None, in_token = False, tokens = []\<rparr> string of
        Inl e \<Rightarrow> Inl e
      | Inr s \<Rightarrow> Inr (tokens s))"

section \<open>Grammar AST\<close>

text \<open>
  The classes \<^verbatim>\<open>Keyword\<close>, \<^verbatim>\<open>Variable\<close>, \<^verbatim>\<open>Group\<close>, \<^verbatim>\<open>Star\<close>, \<^verbatim>\<open>Plus\<close>,
  \<^verbatim>\<open>Optional\<close>. A \<^verbatim>\<open>Group\<close> holds \<^verbatim>\<open>args\<close> (the current sequence) and \<^verbatim>\<open>alts\<close>
  (the closed alternatives); \<^verbatim>\<open>Variable(*types)\<close> holds the tuple of its type tags.
\<close>

datatype grammar =
    Keyword string
  | Variable "string list"
  | Group "grammar list" "grammar list list"
  | Star grammar
  | Plus grammar
  | Optional grammar

text \<open>A group under construction on the parser's stack.\<close>

record group =
  args :: "grammar list"
  alts :: "grammar list list"

definition new_group :: group where
  "new_group = \<lparr>args = [], alts = []\<rparr>"

definition add :: "group \<Rightarrow> grammar \<Rightarrow> group" where
  "add g arg = g\<lparr>args := args g @ [arg]\<rparr>"

definition is_quantified :: "grammar \<Rightarrow> bool" where
  "is_quantified g = (case g of Star _ \<Rightarrow> True | Plus _ \<Rightarrow> True | Optional _ \<Rightarrow> True | _ \<Rightarrow> False)"

definition quantify_last :: "group \<Rightarrow> (grammar \<Rightarrow> grammar) \<Rightarrow> error + group" where
  "quantify_last g Quantifier =
     (if args g \<noteq> [] then
        (if \<not> is_quantified (last (args g))
         then Inr (g\<lparr>args := butlast (args g) @ [Quantifier (last (args g))]\<rparr>)
         else Inl AlreadyQuantified)
      else Inl ExpectedPredicate)"

definition add_alternative :: "group \<Rightarrow> error + group" where
  "add_alternative g =
     (if args g = [] then Inl EmptyAlternative
      else Inr (g\<lparr>alts := alts g @ [args g], args := []\<rparr>))"

definition cleanup :: "group \<Rightarrow> error + group" where
  "cleanup g =
     (if args g = [] then
        (if alts g \<noteq> [] then Inl EmptyAlternate else Inl EmptyGroup)
      else
        (if alts g \<noteq> [] then Inr (g\<lparr>alts := alts g @ [args g], args := []\<rparr>)
         else Inr g))"

definition to_grammar :: "group \<Rightarrow> grammar" where
  "to_grammar g = Group (args g) (alts g)"

section \<open>Grammar parser\<close>

text \<open>
  \<^verbatim>\<open>re.compile(r"([()|*?+])|[ \\t\\r\\n]").split(grammar)\<close>: the text between separators,
  alternating with what the capture group matched: the operator character, or
  \<^verbatim>\<open>None\<close> when the separator was whitespace.
\<close>

definition is_operator_char :: "char \<Rightarrow> bool" where
  "is_operator_char c \<longleftrightarrow> c \<in> set ''()|*?+''"

fun re_split :: "string \<Rightarrow> string \<Rightarrow> string option list" where
  "re_split cur [] = [Some cur]"
| "re_split cur (c # cs) =
     (if is_operator_char c then Some cur # Some [c] # re_split [] cs
      else if is_space_char c then Some cur # None # re_split [] cs
      else re_split (cur @ [c]) cs)"

text \<open>
  \<^verbatim>\<open>str.islower\<close> and \<^verbatim>\<open>str.isupper\<close>, over ASCII: at least one cased character, and
  no cased character of the other case. Characters outside \<open>a-z\<close> and \<open>A-Z\<close> count as
  uncased.
\<close>

definition is_lower_char :: "char \<Rightarrow> bool" where
  "is_lower_char c \<longleftrightarrow> c \<in> set ''abcdefghijklmnopqrstuvwxyz''"

definition is_upper_char :: "char \<Rightarrow> bool" where
  "is_upper_char c \<longleftrightarrow> c \<in> set ''ABCDEFGHIJKLMNOPQRSTUVWXYZ''"

definition islower :: "string \<Rightarrow> bool" where
  "islower s \<longleftrightarrow> list_ex is_lower_char s \<and> \<not> list_ex is_upper_char s"

definition isupper :: "string \<Rightarrow> bool" where
  "isupper s \<longleftrightarrow> list_ex is_upper_char s \<and> \<not> list_ex is_lower_char s"

text \<open>
  \<^verbatim>\<open>_string_index\<close>. The loop appends \<^verbatim>\<open>length + prev\<close> and then sets
  \<^verbatim>\<open>prev = length\<close>; a \<^verbatim>\<open>None\<close> or empty token has length 0.
\<close>

fun cumsum_loop :: "nat \<Rightarrow> string option list \<Rightarrow> nat list \<Rightarrow> nat list" where
  "cumsum_loop prev [] cumsum = cumsum"
| "cumsum_loop prev (s # ss) cumsum =
     (let len = (case s of None \<Rightarrow> 0 | Some str \<Rightarrow> length str)
      in cumsum_loop len ss (cumsum @ [len + prev]))"

definition string_index :: "nat \<Rightarrow> string option list \<Rightarrow> nat" where
  "string_index tok_index toks =
     (let cumsum = cumsum_loop 0 (take tok_index toks) []
      in if cumsum \<noteq> [] then last cumsum else 0)"

text \<open>
  One iteration of the loop of \<^verbatim>\<open>_parse_grammar\<close> over \<^verbatim>\<open>enumerate(tokens)\<close>. The stack
  of groups is kept with its top (\<^verbatim>\<open>stack[-1]\<close>) at the head of the list, so the root
  group \<^verbatim>\<open>stack[0]\<close> is the last element.
\<close>

definition on_top :: "group list \<Rightarrow> (group \<Rightarrow> error + group) \<Rightarrow> error + group list" where
  "on_top stack f =
     (case stack of
        [] \<Rightarrow> Inl IndexError
      | g # rest \<Rightarrow> (case f g of Inl e \<Rightarrow> Inl e | Inr g' \<Rightarrow> Inr (g' # rest)))"

definition parse_token ::
  "string option list \<Rightarrow> nat \<Rightarrow> string option \<Rightarrow> group list \<Rightarrow> error + group list" where
  "parse_token toks tok_index tok stack =
     (case tok of
        None \<Rightarrow> Inr stack
      | Some t \<Rightarrow>
          if t = [] then Inr stack
          else if islower t then on_top stack (\<lambda>g. Inr (add g (Keyword t)))
          else if isupper t then on_top stack (\<lambda>g. Inr (add g (Variable [t])))
          else if t = ''('' then Inr (new_group # stack)
          else if t = '')'' then
            (case stack of
               [] \<Rightarrow> Inl IndexError
             | finished # rest \<Rightarrow>
                 (case cleanup finished of
                    Inl e \<Rightarrow> Inl e
                  | Inr finished_group \<Rightarrow>
                      if rest \<noteq> [] then on_top rest (\<lambda>g. Inr (add g (to_grammar finished_group)))
                      else Inl (UnmatchedClose (string_index tok_index toks))))
          else if t = ''|'' then on_top stack add_alternative
          else if t = ''*'' then on_top stack (\<lambda>g. quantify_last g Star)
          else if t = ''+'' then on_top stack (\<lambda>g. quantify_last g Plus)
          else if t = ''?'' then on_top stack (\<lambda>g. quantify_last g Optional)
          else Inl (UnrecognizedToken t (string_index tok_index toks)))"

fun parse_loop ::
  "string option list \<Rightarrow> nat \<Rightarrow> string option list \<Rightarrow> group list \<Rightarrow> error + group list" where
  "parse_loop toks tok_index [] stack = Inr stack"
| "parse_loop toks tok_index (tok # rest) stack =
     (case parse_token toks tok_index tok stack of
        Inl e \<Rightarrow> Inl e
      | Inr stack' \<Rightarrow> parse_loop toks (Suc tok_index) rest stack')"

definition parse_grammar :: "string \<Rightarrow> error + grammar" where
  "parse_grammar grammar =
     (let toks = re_split [] grammar in
      case parse_loop toks 0 toks [new_group] of
        Inl e \<Rightarrow> Inl e
      | Inr stack \<Rightarrow>
          if length stack > 1
          then Inl (ExpectedClose (length stack - 1) (string_index 0 toks))
          else (case stack of
                  [] \<Rightarrow> Inl IndexError
                | root # _ \<Rightarrow>
                    (case cleanup root of
                       Inl e \<Rightarrow> Inl e
                     | Inr g \<Rightarrow> Inr (to_grammar g))))"

section \<open>Automaton tables\<close>

text \<open>
  A state is a Python dict. Its key \<^verbatim>\<open>Token.EPSILON\<close> (a list of successor indices) is
  the field \<open>eps\<close>, its key \<^verbatim>\<open>Token.EMIT\<close> (a grammar rule) the field \<open>emit\<close>, and
  its remaining keys (a literal word or \<^verbatim>\<open>Token.ANY\<close>, each mapped to one successor
  index) the association list \<open>edges\<close>. The table is the list of states.
\<close>

record state =
  eps :: "nat list option"
  emit :: "grammar option"
  edges :: "(token \<times> nat) list"

type_synonym table = "state list"

definition empty_state :: state where
  "empty_state = \<lparr>eps = None, emit = None, edges = []\<rparr>"

text \<open>Evaluating a list of fallible computations in order; the first exception wins.\<close>

fun sequence :: "(error + 'a) list \<Rightarrow> error + 'a list" where
  "sequence [] = Inr []"
| "sequence (r # rs) =
     (case r of
        Inl e \<Rightarrow> Inl e
      | Inr x \<Rightarrow> (case sequence rs of Inl e \<Rightarrow> Inl e | Inr xs \<Rightarrow> Inr (x # xs)))"

text \<open>\<^verbatim>\<open>_add_epsilon(from_state, to_index)\<close>, returning the updated state.\<close>

definition add_epsilon :: "state \<Rightarrow> nat \<Rightarrow> error + state" where
  "add_epsilon from_state to_index =
     (if edges from_state \<noteq> [] then Inl EpsilonOnMatchState
      else Inr (from_state\<lparr>eps :=
                  Some ((case eps from_state of None \<Rightarrow> [] | Some l \<Rightarrow> l) @ [to_index])\<rparr>))"

text \<open>\<^verbatim>\<open>_add_epsilon(table[i], to_index)\<close> on a table, in place.\<close>

definition add_epsilon_at :: "table \<Rightarrow> nat \<Rightarrow> nat \<Rightarrow> error + table" where
  "add_epsilon_at tbl i to_index =
     (if i \<ge> length tbl then Inl IndexError
      else (case add_epsilon (tbl ! i) to_index of
              Inl e \<Rightarrow> Inl e
            | Inr st \<Rightarrow> Inr (tbl[i := st])))"

text \<open>\<^verbatim>\<open>_add_epsilon(table[-1], to_index)\<close>.\<close>

definition add_epsilon_last :: "table \<Rightarrow> nat \<Rightarrow> error + table" where
  "add_epsilon_last tbl to_index =
     (if tbl = [] then Inl IndexError else add_epsilon_at tbl (length tbl - 1) to_index)"

definition shift_state :: "nat \<Rightarrow> state \<Rightarrow> state" where
  "shift_state shift_by st =
     \<lparr>eps = map_option (map (\<lambda>index. index + shift_by)) (eps st),
      emit = emit st,
      edges = (if eps st \<noteq> None then []
               else map (\<lambda>(tok, index). (tok, index + shift_by)) (edges st))\<rparr>"

definition shift_table :: "nat \<Rightarrow> table \<Rightarrow> table" where
  "shift_table shift_by tbl = map (shift_state shift_by) tbl"

section \<open>Builders\<close>

text \<open>
  The static methods of \<^verbatim>\<open>NFA\<close>, on tables. \<^verbatim>\<open>NFA.plus\<close>, \<^verbatim>\<open>NFA.union\<close> and \<^verbatim>\<open>NFA.concat\<close>
  are \<open>plus_nfa\<close>, \<open>union_nfas\<close> and \<open>concat_nfas\<close>. Each method copies its arguments
  before it changes them, so no table is shared.
\<close>

definition match_on :: "token \<Rightarrow> table" where
  "match_on v = [\<lparr>eps = None, emit = None, edges = [(v, 1)]\<rparr>, empty_state]"

definition star :: "table \<Rightarrow> error + table" where
  "star nfa =
     (let shifted = shift_table 1 nfa in
      case add_epsilon_last shifted 0 of
        Inl e \<Rightarrow> Inl e
      | Inr shifted1 \<Rightarrow>
          (case add_epsilon_last shifted1 (length shifted1 + 1) of
             Inl e \<Rightarrow> Inl e
           | Inr shifted2 \<Rightarrow>
               Inr ([\<lparr>eps = Some [1, length shifted2 + 1], emit = None, edges = []\<rparr>]
                    @ shifted2 @ [empty_state])))"

definition plus_nfa :: "table \<Rightarrow> error + table" where
  "plus_nfa nfa =
     (case add_epsilon_last nfa 0 of
        Inl e \<Rightarrow> Inl e
      | Inr tbl1 \<Rightarrow>
          (case add_epsilon_last tbl1 (length tbl1) of
             Inl e \<Rightarrow> Inl e
           | Inr tbl2 \<Rightarrow> Inr (tbl2 @ [empty_state])))"

definition optional :: "table \<Rightarrow> error + table" where
  "optional nfa =
     (let shifted = shift_table 1 nfa in
      case add_epsilon_last shifted (length shifted + 1) of
        Inl e \<Rightarrow> Inl e
      | Inr shifted1 \<Rightarrow>
          Inr ([\<lparr>eps = Some [1, length shifted1 + 1], emit = None, edges = []\<rparr>]
               @ shifted1 @ [empty_state]))"

text \<open>
  \<^verbatim>\<open>NFA.union\<close>. The loop keeps \<^verbatim>\<open>table\<close> and \<^verbatim>\<open>old_ends\<close>; \<^verbatim>\<open>start\<close> is the dict at
  \<^verbatim>\<open>table[0]\<close>, and appending to its epsilon list is not checked.
\<close>

definition append_eps :: "state \<Rightarrow> nat \<Rightarrow> state" where
  "append_eps st i = st\<lparr>eps := Some ((case eps st of None \<Rightarrow> [] | Some l \<Rightarrow> l) @ [i])\<rparr>"

definition union_step :: "table \<times> nat list \<Rightarrow> table \<Rightarrow> table \<times> nat list" where
  "union_step acc nfa =
     (let tbl = fst acc; old_ends = snd acc;
          tbl' = tbl[0 := append_eps (tbl ! 0) (length tbl)] @ shift_table (length tbl) nfa
      in (tbl', old_ends @ [length tbl' - 1]))"

fun add_ends :: "table \<Rightarrow> nat list \<Rightarrow> nat \<Rightarrow> error + table" where
  "add_ends tbl [] new_end = Inr tbl"
| "add_ends tbl (e # es) new_end =
     (case add_epsilon_at tbl e new_end of
        Inl err \<Rightarrow> Inl err
      | Inr tbl' \<Rightarrow> add_ends tbl' es new_end)"

definition union_nfas :: "table list \<Rightarrow> error + table" where
  "union_nfas nfas =
     (if nfas = [] then Inr [empty_state]
      else if length nfas = 1 then Inr (hd nfas)
      else
        (let acc = foldl union_step ([\<lparr>eps = Some [], emit = None, edges = []\<rparr>], []) nfas;
             tbl = fst acc; old_ends = snd acc;
             new_end = length tbl
         in add_ends (tbl @ [empty_state]) old_ends new_end))"

definition concat_step :: "table \<Rightarrow> table \<Rightarrow> error + table" where
  "concat_step tbl nxt_nfa =
     (let nxt_table = shift_table (length tbl) nxt_nfa in
      case add_epsilon_last tbl (length tbl) of
        Inl e \<Rightarrow> Inl e
      | Inr tbl' \<Rightarrow> Inr (tbl' @ nxt_table))"

fun concat_loop :: "table \<Rightarrow> table list \<Rightarrow> error + table" where
  "concat_loop tbl [] = Inr tbl"
| "concat_loop tbl (nxt_nfa # rest) =
     (case concat_step tbl nxt_nfa of
        Inl e \<Rightarrow> Inl e
      | Inr tbl' \<Rightarrow> concat_loop tbl' rest)"

definition concat_nfas :: "table list \<Rightarrow> error + table" where
  "concat_nfas nfas =
     (case nfas of [] \<Rightarrow> Inr [empty_state] | first # rest \<Rightarrow> concat_loop first rest)"

definition emitter :: "table \<Rightarrow> grammar \<Rightarrow> error + table" where
  "emitter nfa rule =
     (case add_epsilon_last nfa (length nfa) of
        Inl e \<Rightarrow> Inl e
      | Inr tbl \<Rightarrow> Inr (tbl @ [\<lparr>eps = None, emit = Some rule, edges = []\<rparr>]))"

text \<open>
  The method \<^verbatim>\<open>to_nfa\<close> of each class. Its recursion follows the nesting of the grammar;
  the interpreter's bound on that nesting is not modelled.
\<close>

definition then_build :: "error + 'a \<Rightarrow> ('a \<Rightarrow> error + 'b) \<Rightarrow> error + 'b" where
  "then_build r f = (case r of Inl e \<Rightarrow> Inl e | Inr x \<Rightarrow> f x)"

fun to_nfa :: "grammar \<Rightarrow> error + table" where
  "to_nfa (Keyword k) = emitter (match_on (Lit k)) (Keyword k)"
| "to_nfa (Variable types) =
     then_build (plus_nfa (match_on ANY)) (\<lambda>nfa. emitter nfa (Variable types))"
| "to_nfa (Star inner) = then_build (to_nfa inner) star"
| "to_nfa (Plus inner) = then_build (to_nfa inner) plus_nfa"
| "to_nfa (Optional inner) = then_build (to_nfa inner) optional"
| "to_nfa (Group as alternatives) =
     (if as \<noteq> [] then then_build (sequence (map to_nfa as)) concat_nfas
      else then_build
             (sequence (map (\<lambda>alt. then_build (sequence (map to_nfa alt)) concat_nfas)
                            alternatives))
             union_nfas)"

text \<open>\<^verbatim>\<open>Grammar.from_string\<close> followed by the lazily built \<^verbatim>\<open>nfa\<close> property.\<close>

definition compile :: "string \<Rightarrow> error + table" where
  "compile grammar = then_build (parse_grammar grammar) to_nfa"

section \<open>Executor\<close>

text \<open>
  The three generators \<^verbatim>\<open>transition\<close>, \<^verbatim>\<open>trans_emit\<close> and \<^verbatim>\<open>trans_expected\<close> recurse
  along epsilon edges, and a table may hold an epsilon cycle. The first argument bounds
  the depth of the recursion, as the interpreter's recursion limit does; exceeding it is
  \<open>RecursionError\<close>. Reading \<^verbatim>\<open>self._table[state_index]\<close> out of range is \<open>IndexError\<close>.
  A generator is modelled by the list of what it yields; one that raises after yielding
  is modelled as raising, since its consumers only fill locals that the exception
  discards.
\<close>

definition collect :: "(error + 'a list) list \<Rightarrow> error + 'a list" where
  "collect rs = (case sequence rs of Inl e \<Rightarrow> Inl e | Inr xss \<Rightarrow> Inr (concat xss))"

text \<open>The branch of a state without epsilon edges, shared by \<^verbatim>\<open>transition\<close> and \<^verbatim>\<open>trans_emit\<close>.\<close>

definition consume :: "table \<Rightarrow> nat \<Rightarrow> token \<Rightarrow> nat list" where
  "consume tbl state_index tok =
     (let st = tbl ! state_index in
      if state_index = length tbl - 1 then (if tok = END then [state_index] else [])
      else if map_of (edges st) ANY \<noteq> None \<and> tok \<noteq> END
        then (case map_of (edges st) ANY of None \<Rightarrow> [] | Some nxt \<Rightarrow> [nxt])
      else (case map_of (edges st) tok of None \<Rightarrow> [] | Some nxt \<Rightarrow> [nxt]))"

fun transition :: "nat \<Rightarrow> table \<Rightarrow> nat \<Rightarrow> token \<Rightarrow> error + nat list" where
  "transition 0 tbl state_index tok = Inl RecursionError"
| "transition (Suc depth) tbl state_index tok =
     (if state_index \<ge> length tbl then Inl IndexError
      else (case eps (tbl ! state_index) of
              Some nexts \<Rightarrow> collect (map (\<lambda>next_state. transition depth tbl next_state tok) nexts)
            | None \<Rightarrow> Inr (consume tbl state_index tok)))"

fun trans_emit ::
  "nat \<Rightarrow> table \<Rightarrow> nat \<Rightarrow> token \<Rightarrow> grammar list \<Rightarrow> error + (grammar list \<times> nat) list" where
  "trans_emit 0 tbl state_index tok emits = Inl RecursionError"
| "trans_emit (Suc depth) tbl state_index tok emits =
     (if state_index \<ge> length tbl then Inl IndexError
      else
        (let st = tbl ! state_index;
             emits' = (case emit st of Some rule \<Rightarrow> emits @ [rule] | None \<Rightarrow> emits)
         in case eps st of
              Some nexts \<Rightarrow>
                collect (map (\<lambda>next_state. trans_emit depth tbl next_state tok emits') nexts)
            | None \<Rightarrow> Inr (map (\<lambda>nxt. (emits', nxt)) (consume tbl state_index tok))))"

text \<open>\<^verbatim>\<open>tuple(state)\<close>: the keys of a state without epsilon edges.\<close>

definition state_keys :: "state \<Rightarrow> token list" where
  "state_keys st = (case emit st of Some _ \<Rightarrow> [EMIT] | None \<Rightarrow> []) @ map fst (edges st)"

fun trans_expected :: "nat \<Rightarrow> table \<Rightarrow> nat \<Rightarrow> token \<Rightarrow> error + token list" where
  "trans_expected 0 tbl state_index tok = Inl RecursionError"
| "trans_expected (Suc depth) tbl state_index tok =
     (if state_index \<ge> length tbl then Inl IndexError
      else
        (let st = tbl ! state_index in
         case eps st of
           Some nexts \<Rightarrow>
             collect (map (\<lambda>next_state. trans_expected depth tbl next_state tok) nexts)
         | None \<Rightarrow>
             Inr (if state_index = length tbl - 1
                  then (if tok \<noteq> END then [NOTHING] else [])
                  else if tok = END then state_keys st
                  else if \<not> (map_of (edges st) tok \<noteq> None \<or> map_of (edges st) ANY \<noteq> None)
                    then state_keys st
                  else [])))"

text \<open>
  \<^verbatim>\<open>NFA.matches\<close>. The set of live states is a duplicate-free list. The input tokens are
  strings; \<^verbatim>\<open>Token.END\<close> is appended. The final test is \<^verbatim>\<open>(len(self._table) - 1) in states\<close>;
  for an empty table the left side is \<open>-1\<close>, which is no state.
\<close>

definition matches_step :: "nat \<Rightarrow> table \<Rightarrow> nat list \<Rightarrow> token \<Rightarrow> error + nat list" where
  "matches_step depth tbl states tok =
     (case collect (map (\<lambda>st. transition depth tbl st tok) states) of
        Inl e \<Rightarrow> Inl e
      | Inr next_states \<Rightarrow> Inr (remdups next_states))"

fun matches_loop :: "nat \<Rightarrow> table \<Rightarrow> nat list \<Rightarrow> token list \<Rightarrow> error + nat list" where
  "matches_loop depth tbl states [] = Inr states"
| "matches_loop depth tbl states (tok # toks) =
     (case matches_step depth tbl states tok of
        Inl e \<Rightarrow> Inl e
      | Inr next_states \<Rightarrow> matches_loop depth tbl next_states toks)"

definition matches :: "nat \<Rightarrow> table \<Rightarrow> string list \<Rightarrow> error + bool" where
  "matches depth tbl toks =
     (case matches_loop depth tbl [0] (map Lit toks @ [END]) of
        Inl e \<Rightarrow> Inl e
      | Inr states \<Rightarrow> Inr (tbl \<noteq> [] \<and> length tbl - 1 \<in> set states))"

text \<open>
  \<^verbatim>\<open>NFA.annotate\<close>. A parse stack holds plain tokens and \<^verbatim>\<open>Parsed(rule, tokens)\<close> records,
  its top at the end of the list. The parallel lists \<^verbatim>\<open>states\<close> and \<^verbatim>\<open>stacks\<close> are one
  list of pairs. The tuple \<^verbatim>\<open>expected\<close> of a \<^verbatim>\<open>Fail\<close> is built from a set, so its order is
  not determined; it is kept as a set.
\<close>

datatype entry = Tok token | Parsed grammar "string list"

definition is_str :: "entry \<Rightarrow> bool" where
  "is_str e = (case e of Tok (Lit _) \<Rightarrow> True | _ \<Rightarrow> False)"

definition str_of :: "entry \<Rightarrow> string" where
  "str_of e = (case e of Tok (Lit s) \<Rightarrow> s | _ \<Rightarrow> [])"

text \<open>
  Popping the trailing strings of the stack into \<^verbatim>\<open>claimed\<close>, then pushing
  \<^verbatim>\<open>Parsed(rule, claimed[::-1])\<close> and the token.
\<close>

definition reduce_stack :: "entry list \<Rightarrow> grammar \<Rightarrow> token \<Rightarrow> entry list" where
  "reduce_stack stack rule tok =
     (let claimed = takeWhile is_str (rev stack);
          new_stack = rev (dropWhile is_str (rev stack))
      in new_stack @ [Parsed rule (rev (map str_of claimed)), Tok tok])"

definition push_path ::
  "entry list \<Rightarrow> token \<Rightarrow> grammar list \<times> nat \<Rightarrow> error + nat \<times> entry list" where
  "push_path stack tok y =
     (case fst y of
        [] \<Rightarrow> Inr (snd y, stack @ [Tok tok])
      | [rule] \<Rightarrow> Inr (snd y, reduce_stack stack rule tok)
      | _ \<Rightarrow> Inl UnpackError)"

definition advance_path ::
  "nat \<Rightarrow> table \<Rightarrow> token \<Rightarrow> nat \<times> entry list \<Rightarrow> error + (nat \<times> entry list) list" where
  "advance_path depth tbl tok path =
     (case trans_emit depth tbl (fst path) tok [] of
        Inl e \<Rightarrow> Inl e
      | Inr ys \<Rightarrow> sequence (map (push_path (snd path) tok) ys))"

definition failure :: "nat \<Rightarrow> table \<Rightarrow> token \<Rightarrow> nat \<times> entry list \<Rightarrow> error + fail" where
  "failure depth tbl tok path =
     (case trans_expected depth tbl (fst path) tok of
        Inl e \<Rightarrow> Inl e
      | Inr exp \<Rightarrow> Inr (Fail (set exp) tok))"

definition annotate_step ::
  "nat \<Rightarrow> table \<Rightarrow> (nat \<times> entry list) list \<Rightarrow> token \<Rightarrow> error + (nat \<times> entry list) list" where
  "annotate_step depth tbl paths tok =
     (case collect (map (advance_path depth tbl tok) paths) of
        Inl e \<Rightarrow> Inl e
      | Inr next_paths \<Rightarrow>
          if next_paths = [] then
            (case sequence (map (failure depth tbl tok) paths) of
               Inl e \<Rightarrow> Inl e
             | Inr failures \<Rightarrow> Inl (ParseError (set failures)))
          else Inr next_paths)"

fun annotate_loop ::
  "nat \<Rightarrow> table \<Rightarrow> (nat \<times> entry list) list \<Rightarrow> token list \<Rightarrow> error + (nat \<times> entry list) list" where
  "annotate_loop depth tbl paths [] = Inr paths"
| "annotate_loop depth tbl paths (tok # toks) =
     (case annotate_step depth tbl paths tok of
        Inl e \<Rightarrow> Inl e
      | Inr next_paths \<Rightarrow> annotate_loop depth tbl next_paths toks)"

definition annotate :: "nat \<Rightarrow> table \<Rightarrow> string list \<Rightarrow> error + entry list list" where
  "annotate depth tbl toks =
     (case annotate_loop depth tbl [(0, [])] (map Lit toks @ [END]) of
        Inl e \<Rightarrow> Inl e
      | Inr paths \<Rightarrow> Inr (map snd paths))"

section \<open>Shapes of grammar-syntax errors\<close>

text \<open>The index a grammar-syntax error carries in its message, if it carries one.\<close>

definition error_offset :: "error \<Rightarrow> nat option" where
  "error_offset e =
     (case e of
        UnmatchedClose i \<Rightarrow> Some i
      | UnrecognizedToken t i \<Rightarrow> Some i
      | ExpectedClose c i \<Rightarrow> Some i
      | _ \<Rightarrow> None)"

text \<open>The errors raised by the methods of \<^verbatim>\<open>Group\<close>: a message and nothing else.\<close>

definition offset_free :: "error \<Rightarrow> bool" where
  "offset_free e \<longleftrightarrow>
     e \<in> {EmptyGroup, EmptyAlternate, EmptyAlternative, AlreadyQuantified, ExpectedPredicate}"

text \<open>
  The errors raised by \<^verbatim>\<open>_parse_grammar\<close> itself at the token with index \<open>k\<close>: an
  unmatched \<^verbatim>\<open>)\<close>, or a token that is neither a lowercase word, an uppercase word nor
  an operator. Each carries an index; its value is not part of this notion.
\<close>

definition raised_at :: "string option list \<Rightarrow> nat \<Rightarrow> error \<Rightarrow> bool" where
  "raised_at toks k e \<longleftrightarrow>
     k < length toks \<and>
     ((toks ! k = Some '')'' \<and> (\<exists>i. e = UnmatchedClose i))
      \<or> (\<exists>t i. toks ! k = Some t \<and> \<not> islower t \<and> \<not> isupper t
            \<and> e = UnrecognizedToken t i))"

section \<open>Auxiliary notions for the executor\<close>

text \<open>The table that \<^verbatim>\<open>take (ITEM)\<close> compiles to (see \<open>compile_take_item\<close> below).\<close>

definition take_item :: table where
  "take_item =
     [\<lparr>eps = None, emit = None, edges = [(Lit ''take'', 1)]\<rparr>,
      \<lparr>eps = Some [2], emit = None, edges = []\<rparr>,
      \<lparr>eps = Some [3], emit = Some (Keyword ''take''), edges = []\<rparr>,
      \<lparr>eps = None, emit = None, edges = [(ANY, 4)]\<rparr>,
      \<lparr>eps = Some [3, 5], emit = None, edges = []\<rparr>,
      \<lparr>eps = Some [6], emit = None, edges = []\<rparr>,
      \<lparr>eps = None, emit = Some (Variable [''ITEM'']), edges = []\<rparr>]"

text \<open>
  The set of categories that \<^verbatim>\<open>trans_expected\<close> yields for a state and a token: the
  \<^verbatim>\<open>expected\<close> field of the \<^verbatim>\<open>Fail\<close> record of a path that was in that state.
\<close>

definition expected_of :: "nat \<Rightarrow> table \<Rightarrow> nat \<Rightarrow> token \<Rightarrow> token set" where
  "expected_of depth tbl state_index tok =
     (case trans_expected depth tbl state_index tok of Inl _ \<Rightarrow> {} | Inr exp \<Rightarrow> set exp)"

text \<open>The table that every \<^verbatim>\<open>Keyword\<close> compiles to (see \<open>to_nfa_Keyword_table\<close> below).\<close>

definition keyword_table :: "string \<Rightarrow> table" where
  "keyword_table k =
     [\<lparr>eps = None, emit = None, edges = [(Lit k, 1)]\<rparr>,
      \<lparr>eps = Some [2], emit = None, edges = []\<rparr>,
      \<lparr>eps = None, emit = Some (Keyword k), edges = []\<rparr>]"

text \<open>
  A table starts with a chain of keywords \<open>ws\<close>: the three states of each keyword in
  turn, the emitting state of each but the last linked to the start of the next.
\<close>

definition chain :: "table \<Rightarrow> string list \<Rightarrow> bool" where
  "chain tbl ws \<longleftrightarrow>
     3 * length ws \<le> length tbl
     \<and> (\<forall>j<length ws.
           tbl ! (3 * j) = \<lparr>eps = None, emit = None, edges = [(Lit (ws ! j), 3 * j + 1)]\<rparr>
         \<and> tbl ! (3 * j + 1) = \<lparr>eps = Some [3 * j + 2], emit = None, edges = []\<rparr>
         \<and> emit (tbl ! (3 * j + 2)) = Some (Keyword (ws ! j))
         \<and> edges (tbl ! (3 * j + 2)) = []
         \<and> (j + 1 < length ws \<longrightarrow> eps (tbl ! (3 * j + 2)) = Some [3 * j + 3]))"

text \<open>
  The tables that \<^verbatim>\<open>take (ITEM) now\<close> and \<^verbatim>\<open>go to (PLACE)\<close> compile to (see
  \<open>compile_take_item_now\<close> and \<open>compile_go_to_place\<close> below).
\<close>

definition take_item_now :: table where
  "take_item_now =
     [\<lparr>eps = None, emit = None, edges = [(Lit ''take'', 1)]\<rparr>,
      \<lparr>eps = Some [2], emit = None, edges = []\<rparr>,
      \<lparr>eps = Some [3], emit = Some (Keyword ''take''), edges = []\<rparr>,
      \<lparr>eps = None, emit = None, edges = [(ANY, 4)]\<rparr>,
      \<lparr>eps = Some [3, 5], emit = None, edges = []\<rparr>,
      \<lparr>eps = Some [6], emit = None, edges = []\<rparr>,
      \<lparr>eps = Some [7], emit = Some (Variable [''ITEM'']), edges = []\<rparr>,
      \<lparr>eps = None, emit = None, edges = [(Lit ''now'', 8)]\<rparr>,
      \<lparr>eps = Some [9], emit = None, edges = []\<rparr>,
      \<lparr>eps = None, emit = Some (Keyword ''now''), edges = []\<rparr>]"

definition go_to_place :: table where
  "go_to_place =
     [\<lparr>eps = None, emit = None, edges = [(Lit ''go'', 1)]\<rparr>,
      \<lparr>eps = Some [2], emit = None, edges = []\<rparr>,
      \<lparr>eps = Some [3], emit = Some (Keyword ''go''), edges = []\<rparr>,
      \<lparr>eps = None, emit = None, edges = [(Lit ''to'', 4)]\<rparr>,
      \<lparr>eps = Some [5], emit = None, edges = []\<rparr>,
      \<lparr>eps = Some [6], emit = Some (Keyword ''to''), edges = []\<rparr>,
      \<lparr>eps = None, emit = None, edges = [(ANY, 7)]\<rparr>,
      \<lparr>eps = Some [6, 8], emit = None, edges = []\<rparr>,
      \<lparr>eps = Some [9], emit = None, edges = []\<rparr>,
      \<lparr>eps = None, emit = Some (Variable [''PLACE'']), edges = []\<rparr>]"

text \<open>The table that every \<^verbatim>\<open>Variable\<close> compiles to (see \<open>to_nfa_Variable_table\<close> below).\<close>

definition variable_table :: "string list \<Rightarrow> table" where
  "variable_table types =
     [\<lparr>eps = None, emit = None, edges = [(ANY, 1)]\<rparr>,
      \<lparr>eps = Some [0, 2], emit = None, edges = []\<rparr>,
      \<lparr>eps = Some [3], emit = None, edges = []\<rparr>,
      \<lparr>eps = None, emit = Some (Variable types), edges = []\<rparr>]"

section \<open>Shape of a built table\<close>

text \<open>
  The tables that the build operations produce, starting from \<^verbatim>\<open>match_on\<close> of a word or of
  \<^verbatim>\<open>Token.ANY\<close>. An operation that raises produces no table.
\<close>

inductive built :: "table \<Rightarrow> bool" where
  built_match_on_word: "built (match_on (Lit w))"
| built_match_on_any: "built (match_on ANY)"
| built_concat: "\<forall>nfa\<in>set nfas. built nfa \<Longrightarrow> concat_nfas nfas = Inr tbl \<Longrightarrow> built tbl"
| built_union: "\<forall>nfa\<in>set nfas. built nfa \<Longrightarrow> union_nfas nfas = Inr tbl \<Longrightarrow> built tbl"
| built_star: "built nfa \<Longrightarrow> star nfa = Inr tbl \<Longrightarrow> built tbl"
| built_plus: "built nfa \<Longrightarrow> plus_nfa nfa = Inr tbl \<Longrightarrow> built tbl"
| built_optional: "built nfa \<Longrightarrow> optional nfa = Inr tbl \<Longrightarrow> built tbl"
| built_emitter: "built nfa \<Longrightarrow> emitter nfa rule = Inr tbl \<Longrightarrow> built tbl"

text \<open>No state has both a consuming edge and an epsilon list.\<close>

definition exclusive :: "state \<Rightarrow> bool" where
  "exclusive st \<longleftrightarrow> \<not> (edges st \<noteq> [] \<and> eps st \<noteq> None)"

text \<open>A state without outgoing edges.\<close>

definition terminal :: "state \<Rightarrow> bool" where
  "terminal st \<longleftrightarrow> eps st = None \<and> edges st = []"

text \<open>
  A state accepts the end of the input when it has no epsilon list and the consuming
  branch of \<^verbatim>\<open>transition\<close> yields a state on \<^verbatim>\<open>Token.END\<close>.
\<close>

definition accepts_end :: "table \<Rightarrow> nat \<Rightarrow> bool" where
  "accepts_end tbl i \<longleftrightarrow> eps (tbl ! i) = None \<and> consume tbl i END \<noteq> []"

text \<open>
  The table is not empty, so that index 0, where \<^verbatim>\<open>matches\<close> and \<^verbatim>\<open>annotate\<close> start, and
  the last index, which \<^verbatim>\<open>matches\<close> tests, exist; the last state has no outgoing edge and
  is the only state that accepts the end of the input; and every state is exclusive.
\<close>

definition well_formed :: "table \<Rightarrow> bool" where
  "well_formed tbl \<longleftrightarrow>
     tbl \<noteq> [] \<and> terminal (last tbl) \<and> list_all exclusive tbl
     \<and> filter (accepts_end tbl) [0..<length tbl] = [length tbl - 1]"

text \<open>The invariant carried through the build operations.\<close>

definition good :: "state \<Rightarrow> bool" where
  "good st \<longleftrightarrow> exclusive st \<and> map_of (edges st) END = None"

definition table_inv :: "table \<Rightarrow> bool" where
  "table_inv tbl \<longleftrightarrow> tbl \<noteq> [] \<and> terminal (last tbl) \<and> list_all good tbl"

text \<open>The invariant of the loop of \<^verbatim>\<open>NFA.union\<close>.\<close>

definition union_acc :: "table \<times> nat list \<Rightarrow> bool" where
  "union_acc acc \<longleftrightarrow>
     fst acc \<noteq> [] \<and> edges (fst acc ! 0) = [] \<and> list_all good (fst acc)
     \<and> (\<forall>e\<in>set (snd acc). e < length (fst acc))"

section \<open>At most one rule is emitted between two tokens\<close>

text \<open>
  \<^verbatim>\<open>annotate\<close> unpacks the tuple of emitted rules with \<^verbatim>\<open>rule, = emits\<close>, which raises when
  one epsilon path passes two emitting states. The following invariant of a table
  excludes it. A set \<open>S\<close> of state indices is closed under epsilon edges, holds the start
  state and no emitting state, and holds every epsilon successor of an emitting state.
\<close>

definition eps_list :: "state \<Rightarrow> nat list" where
  "eps_list st = (case eps st of None \<Rightarrow> [] | Some ns \<Rightarrow> ns)"

definition state_ok :: "nat set \<Rightarrow> state \<Rightarrow> nat \<Rightarrow> bool" where
  "state_ok S st i \<longleftrightarrow>
     (i \<in> S \<longrightarrow> emit st = None)
     \<and> (i \<in> S \<or> emit st \<noteq> None \<longrightarrow> set (eps_list st) \<subseteq> S)"

text \<open>The states of a fragment \<open>t\<close> that sits at offset \<open>k\<close> of a table.\<close>

definition frag_ok :: "nat set \<Rightarrow> nat \<Rightarrow> table \<Rightarrow> bool" where
  "frag_ok S k t \<longleftrightarrow> (\<forall>i<length t. state_ok S (t ! i) (k + i))"

definition emit_safe :: "table \<Rightarrow> nat set \<Rightarrow> bool" where
  "emit_safe tbl S \<longleftrightarrow> S \<subseteq> {..<length tbl} \<and> 0 \<in> S \<and> frag_ok S 0 tbl"

definition safe :: "table \<Rightarrow> bool" where
  "safe tbl \<longleftrightarrow> (\<exists>S. emit_safe tbl S)"

section \<open>Agreement of the two simulations\<close>

definition map_result :: "('a \<Rightarrow> 'b) \<Rightarrow> error + 'a \<Rightarrow> error + 'b" where
  "map_result g r = (case r of Inl e \<Rightarrow> Inl e | Inr x \<Rightarrow> Inr (g x))"

text \<open>
  How a run of the loop of \<^verbatim>\<open>annotate\<close> and a run of the loop of \<^verbatim>\<open>matches\<close> over the same
  tokens correspond: the same live states; \<^verbatim>\<open>ParseError\<close> against an empty set of states;
  any other exception against an exception.
\<close>

definition agree :: "error + (nat \<times> entry list) list \<Rightarrow> error + nat list \<Rightarrow> bool" where
  "agree a m \<longleftrightarrow>
     (case a of
        Inr qs \<Rightarrow> (\<exists>ns. m = Inr ns \<and> set ns = fst ` set qs)
      | Inl e \<Rightarrow> ((\<exists>fs. e = ParseError fs) \<and> m = Inr [])
                 \<or> ((e = RecursionError \<or> e = IndexError) \<and> (\<exists>e'. m = Inl e')))"

section \<open>Properties of the tokenizer\<close>

lemma scan_loop_append:
  "scan_loop s (xs @ ys) = (case scan_loop s xs of Inl e \<Rightarrow> Inl e | Inr s' \<Rightarrow> scan_loop s' ys)"
  by (induction xs arbitrary: s) (auto split: sum.splits)

lemma append_last_snoc: "append_last (ts @ [t]) c = Inr (ts @ [t @ [c]])"
  by (simp add: append_last_def)

text \<open>Inside a quote every character but the closing quote is appended to the last token.\<close>

lemma scan_in_quote:
  "q \<notin> set s \<Longrightarrow>
   scan_loop \<lparr>in_quote = Some q, in_token = b, tokens = ts @ [t]\<rparr> s
     = Inr \<lparr>in_quote = Some q, in_token = b, tokens = ts @ [t @ s]\<rparr>"
  by (induction s arbitrary: t) (auto simp: scan_char_def append_last_snoc)

text \<open>Inside an unquoted token every character but whitespace is appended to it.\<close>

lemma scan_in_token:
  "\<not> list_ex is_space_char s \<Longrightarrow>
   scan_loop \<lparr>in_quote = None, in_token = True, tokens = ts @ [t]\<rparr> s
     = Inr \<lparr>in_quote = None, in_token = True, tokens = ts @ [t @ s]\<rparr>"
  by (induction s arbitrary: t) (auto simp: scan_char_def append_last_snoc)

text \<open>A word that starts outside any token opens a new token.\<close>

lemma scan_word:
  assumes "s \<noteq> []" "\<not> list_ex is_space_char s" "\<not> list_ex is_quote_char s"
  shows "scan_loop \<lparr>in_quote = None, in_token = False, tokens = ts\<rparr> s
     = Inr \<lparr>in_quote = None, in_token = True, tokens = ts @ [s]\<rparr>"
proof -
  obtain c cs where s: "s = c # cs" using assms(1) by (cases s) auto
  have cs: "\<not> list_ex is_space_char cs" and c: "\<not> is_space_char c" "\<not> is_quote_char c"
    using assms(2,3) s by auto
  show ?thesis
    using scan_in_token[OF cs, of ts "[c]"] c s by (simp add: scan_char_def)
qed

lemma split_args_quoted:
  assumes "is_quote_char q" "q \<notin> set s"
  shows "split_args (q # s) = Inr [s]" "split_args (q # s @ [q]) = Inr [s]"
  using assms scan_in_quote[of q s False "[]" "[]"]
  by (auto simp: split_args_def scan_char_def scan_loop_append)

lemma split_args_two_words:
  assumes u: "u \<noteq> []" "\<not> list_ex is_space_char u" "\<not> list_ex is_quote_char u"
    and v: "v \<noteq> []" "\<not> list_ex is_space_char v" "\<not> list_ex is_quote_char v"
    and w: "is_space_char w" "\<not> is_quote_char w"
  shows "split_args (u @ w # v) = Inr [u, v]"
proof -
  have "scan_loop \<lparr>in_quote = None, in_token = True, tokens = [u]\<rparr> (w # v)
      = Inr \<lparr>in_quote = None, in_token = True, tokens = [u, v]\<rparr>"
    using scan_word[OF v, of "[u]"] w by (simp add: scan_char_def)
  then show ?thesis
    using scan_word[OF u, of "[]"] by (simp add: split_args_def scan_loop_append)
qed

text \<open>The scanner never appends to a missing token, so \<^verbatim>\<open>split_args\<close> never raises.\<close>

lemma scan_char_ok:
  assumes "in_quote s \<noteq> None \<or> in_token s \<longrightarrow> tokens s \<noteq> []"
  shows "\<exists>s'. scan_char s c = Inr s'
     \<and> (in_quote s' \<noteq> None \<or> in_token s' \<longrightarrow> tokens s' \<noteq> [])"
  using assms by (auto simp: scan_char_def append_last_def split: option.splits)

lemma scan_loop_ok:
  assumes "in_quote s \<noteq> None \<or> in_token s \<longrightarrow> tokens s \<noteq> []"
  shows "\<exists>s'. scan_loop s cs = Inr s'"
  using assms
proof (induction cs arbitrary: s)
  case Nil
  then show ?case by simp
next
  case (Cons c cs)
  from scan_char_ok[OF Cons.prems, of c] obtain s1
    where "scan_char s c = Inr s1"
      "in_quote s1 \<noteq> None \<or> in_token s1 \<longrightarrow> tokens s1 \<noteq> []" by blast
  with Cons.IH[of s1] show ?case by simp
qed

lemma split_args_total: "\<exists>ts. split_args string = Inr ts"
proof -
  obtain s' where "scan_loop \<lparr>in_quote = None, in_token = False, tokens = []\<rparr> string = Inr s'"
    using scan_loop_ok[of "\<lparr>in_quote = None, in_token = False, tokens = []\<rparr>" string] by auto
  then show ?thesis by (simp add: split_args_def)
qed

lemma split_args_example_equip:
  "split_args ''equip \"epic sword\"'' = Inr [''equip'', ''epic sword'']"
  by (simp add: split_args_def scan_char_def append_last_def is_quote_char_def is_space_char_def)

lemma split_args_example_say:
  "split_args (''say \"oh no...    don'' @ [CHR 0x27] @ ''t go!'')
     = Inr [''say'', ''oh no...    don'' @ [CHR 0x27] @ ''t go!'']"
  by (simp add: split_args_def scan_char_def append_last_def is_quote_char_def is_space_char_def)

text \<open>
  Claim C7. The tokenizer splits on whitespace outside quotes (two plain words around
  one whitespace character give two tokens), keeps every character of a quoted span
  except the quote that closes it (so whitespace inside is preserved), strips the quote
  characters, and closes an unterminated quote at the end of the string without an
  error (no input makes it raise). On the two documented inputs: \<^verbatim>\<open>split_args('equip "epic sword"')\<close> is
  \<^verbatim>\<open>['equip', 'epic sword']\<close>, and \<^verbatim>\<open>split_args('say "oh no...    don\'t go!')\<close> is
  \<^verbatim>\<open>['say', "oh no...    don't go!"]\<close>.
\<close>

theorem split_args_respects_quotes:
  "split_args ''equip \"epic sword\"'' = Inr [''equip'', ''epic sword'']
   \<and> split_args (''say \"oh no...    don'' @ [CHR 0x27] @ ''t go!'')
       = Inr [''say'', ''oh no...    don'' @ [CHR 0x27] @ ''t go!'']
   \<and> (is_quote_char q \<and> q \<notin> set s \<longrightarrow>
        split_args (q # s @ [q]) = Inr [s] \<and> split_args (q # s) = Inr [s])
   \<and> (u \<noteq> [] \<and> \<not> list_ex is_space_char u \<and> \<not> list_ex is_quote_char u
        \<and> v \<noteq> [] \<and> \<not> list_ex is_space_char v \<and> \<not> list_ex is_quote_char v
        \<and> is_space_char w \<longrightarrow>
        split_args (u @ w # v) = Inr [u, v])
   \<and> (\<exists>ts. split_args x = Inr ts)"
proof -
  have "\<not> is_quote_char w" if "is_space_char w"
    using that by (auto simp: is_space_char_def is_quote_char_def)
  then show ?thesis
    using split_args_example_equip split_args_example_say split_args_quoted
      split_args_two_words split_args_total[of x]
    by blast
qed

theorem split_args_respects_quotes_witness:
  "is_quote_char (CHR 0x22) \<and> CHR 0x22 \<notin> set ''a  b''
   \<and> split_args (CHR 0x22 # ''a  b'' @ [CHR 0x22]) = Inr [''a  b'']
   \<and> split_args (CHR 0x22 # ''a  b'') = Inr [''a  b'']
   \<and> ''go'' \<noteq> [] \<and> \<not> list_ex is_space_char ''go'' \<and> \<not> list_ex is_quote_char ''go''
   \<and> ''north'' \<noteq> [] \<and> \<not> list_ex is_space_char ''north''
   \<and> \<not> list_ex is_quote_char ''north'' \<and> is_space_char (CHR '' '')
   \<and> split_args (''go'' @ CHR '' '' # ''north'') = Inr [''go'', ''north'']"
  using split_args_respects_quotes
    [of "CHR 0x22" "''a  b''" "''go''" "''north''" "CHR '' ''"]
  by (simp add: is_quote_char_def is_space_char_def)

text \<open>
  Claim C10. Closing a quoted span leaves the scanner outside any token, so a
  non-whitespace character right after the closing quote begins a new token: for every
  \<open>p\<close> and every non-empty \<open>s\<close>, both without whitespace or quotes,
  \<^verbatim>\<open>split_args('"' + p + '"' + s)\<close> is the two tokens \<open>p\<close> and \<open>s\<close>; for instance
  \<^verbatim>\<open>split_args('"ab"cd')\<close> is \<^verbatim>\<open>['ab', 'cd']\<close>. (The suffix is non-empty because the
  claim speaks of a character that follows the closing quote.)
\<close>

theorem split_args_after_closing_quote:
  assumes "\<not> list_ex is_space_char p" "\<not> list_ex is_quote_char p"
    and "s \<noteq> []" "\<not> list_ex is_space_char s" "\<not> list_ex is_quote_char s"
  shows "split_args (CHR 0x22 # p @ CHR 0x22 # s) = Inr [p, s]"
proof -
  have q: "CHR 0x22 \<notin> set p"
    using assms(2) by (auto simp: list_ex_iff is_quote_char_def)
  have 1: "scan_loop \<lparr>in_quote = None, in_token = False, tokens = []\<rparr> (CHR 0x22 # p)
     = Inr \<lparr>in_quote = Some (CHR 0x22), in_token = False, tokens = [p]\<rparr>"
    using scan_in_quote[OF q, of False "[]" "[]"]
    by (simp add: scan_char_def is_quote_char_def)
  have 2: "scan_loop \<lparr>in_quote = Some (CHR 0x22), in_token = False, tokens = [p]\<rparr> (CHR 0x22 # s)
     = Inr \<lparr>in_quote = None, in_token = True, tokens = [p, s]\<rparr>"
    using scan_word[OF assms(3,4,5), of "[p]"] by (simp add: scan_char_def)
  have "scan_loop \<lparr>in_quote = None, in_token = False, tokens = []\<rparr> ((CHR 0x22 # p) @ CHR 0x22 # s)
     = Inr \<lparr>in_quote = None, in_token = True, tokens = [p, s]\<rparr>"
    unfolding scan_loop_append 1 using 2 by simp
  then show ?thesis by (simp add: split_args_def)
qed

theorem split_args_after_closing_quote_witness:
  "\<not> list_ex is_space_char ''ab'' \<and> \<not> list_ex is_quote_char ''ab''
   \<and> ''cd'' \<noteq> [] \<and> \<not> list_ex is_space_char ''cd'' \<and> \<not> list_ex is_quote_char ''cd''
   \<and> split_args (CHR 0x22 # ''ab'' @ CHR 0x22 # ''cd'') = Inr [''ab'', ''cd'']"
  using split_args_after_closing_quote [of "''ab''" "''cd''"]
  by (simp add: is_quote_char_def is_space_char_def)

section \<open>Properties of the grammar parser\<close>

lemmas parser_defs = parse_grammar_def parse_token_def on_top_def cleanup_def add_def
  new_group_def quantify_last_def add_alternative_def to_grammar_def is_quantified_def
  islower_def isupper_def is_lower_char_def is_upper_char_def is_operator_char_def
  is_space_char_def string_index_def

lemma parse_unclosed_group: "parse_grammar ''take (ITEM'' = Inl (ExpectedClose 1 0)"
  by (simp add: parser_defs)

lemma parse_empty_group: "parse_grammar ''()'' = Inl EmptyGroup"
  by (simp add: parser_defs)

lemma parse_quantifier_first:
  "parse_grammar ''?'' = Inl ExpectedPredicate"
  "parse_grammar ''*'' = Inl ExpectedPredicate"
  "parse_grammar ''+'' = Inl ExpectedPredicate"
  "parse_grammar ''take (?ITEM)'' = Inl ExpectedPredicate"
  by (simp_all add: parser_defs)

lemma parse_quantifier_twice:
  "parse_grammar ''a**'' = Inl AlreadyQuantified"
  "parse_grammar ''a?+'' = Inl AlreadyQuantified"
  "parse_grammar ''(ITEM)+?'' = Inl AlreadyQuantified"
  by (simp_all add: parser_defs)

lemma parse_empty_alternative:
  "parse_grammar ''|a'' = Inl EmptyAlternative"
  "parse_grammar ''(a||b)'' = Inl EmptyAlternative"
  by (simp_all add: parser_defs)

lemma quantify_last_empty: "quantify_last \<lparr>args = [], alts = a\<rparr> Q = Inl ExpectedPredicate"
  by (simp add: quantify_last_def)

lemma quantify_last_quantified:
  "quantify_last \<lparr>args = as @ [Star x], alts = a\<rparr> Q = Inl AlreadyQuantified"
  "quantify_last \<lparr>args = as @ [Plus x], alts = a\<rparr> Q = Inl AlreadyQuantified"
  "quantify_last \<lparr>args = as @ [Optional x], alts = a\<rparr> Q = Inl AlreadyQuantified"
  by (simp_all add: quantify_last_def is_quantified_def)

lemma add_alternative_empty: "add_alternative \<lparr>args = [], alts = a\<rparr> = Inl EmptyAlternative"
  by (simp add: add_alternative_def)

lemma operators_uncased:
  "\<not> islower ''?''" "\<not> isupper ''?''" "\<not> islower ''*''" "\<not> isupper ''*''"
  "\<not> islower ''+''" "\<not> isupper ''+''" "\<not> islower ''|''" "\<not> isupper ''|''"
  by (simp_all add: parser_defs)

text \<open>
  Claim C6. Compiling \<^verbatim>\<open>take (ITEM\<close> fails with the error that one \<^verbatim>\<open>)\<close> was expected;
  compiling \<^verbatim>\<open>()\<close> fails with the empty-group error. A quantifier token \<^verbatim>\<open>?\<close>, \<^verbatim>\<open>*\<close> or
  \<^verbatim>\<open>+\<close> read while the top group has no sibling in its current sequence fails, and so
  does one read while the last sibling is already a \<^verbatim>\<open>Star\<close>, \<^verbatim>\<open>Plus\<close> or \<^verbatim>\<open>Optional\<close>;
  \<^verbatim>\<open>|\<close> read while the current sequence is empty fails. This holds for every state of the
  parser's stack, and on the grammar strings \<^verbatim>\<open>?\<close>, \<^verbatim>\<open>*\<close>, \<^verbatim>\<open>+\<close>, \<^verbatim>\<open>a**\<close>, \<^verbatim>\<open>a?+\<close>,
  \<^verbatim>\<open>|a\<close> and \<^verbatim>\<open>(a||b)\<close>.
\<close>

theorem malformed_grammars_fail:
  "parse_grammar ''take (ITEM'' = Inl (ExpectedClose 1 0)
   \<and> compile ''take (ITEM'' = Inl (ExpectedClose 1 0)
   \<and> parse_grammar ''()'' = Inl EmptyGroup
   \<and> compile ''()'' = Inl EmptyGroup
   \<and> parse_token toks i (Some ''?'') (\<lparr>args = [], alts = a\<rparr> # rest) = Inl ExpectedPredicate
   \<and> parse_token toks i (Some ''*'') (\<lparr>args = [], alts = a\<rparr> # rest) = Inl ExpectedPredicate
   \<and> parse_token toks i (Some ''+'') (\<lparr>args = [], alts = a\<rparr> # rest) = Inl ExpectedPredicate
   \<and> list_all (\<lambda>q. list_all (\<lambda>last_arg.
          parse_token toks i (Some q) (\<lparr>args = as @ [last_arg], alts = a\<rparr> # rest)
            = Inl AlreadyQuantified) [Star x, Plus x, Optional x]) [''?'', ''*'', ''+'']
   \<and> parse_token toks i (Some ''|'') (\<lparr>args = [], alts = a\<rparr> # rest) = Inl EmptyAlternative
   \<and> parse_grammar ''?'' = Inl ExpectedPredicate
   \<and> parse_grammar ''*'' = Inl ExpectedPredicate
   \<and> parse_grammar ''+'' = Inl ExpectedPredicate
   \<and> parse_grammar ''a**'' = Inl AlreadyQuantified
   \<and> parse_grammar ''a?+'' = Inl AlreadyQuantified
   \<and> parse_grammar ''|a'' = Inl EmptyAlternative
   \<and> parse_grammar ''(a||b)'' = Inl EmptyAlternative"
  by (simp add: parse_unclosed_group parse_empty_group parse_quantifier_first
      parse_quantifier_twice parse_empty_alternative compile_def then_build_def
      parse_token_def operators_uncased on_top_def quantify_last_empty
      quantify_last_quantified add_alternative_empty)

text \<open>An error of a \<^verbatim>\<open>Group\<close> method never carries an offset.\<close>

lemma offset_free_no_offset: "offset_free e \<Longrightarrow> error_offset e = None"
  by (auto simp: offset_free_def error_offset_def)

lemma cleanup_error: "cleanup g = Inl e \<Longrightarrow> offset_free e"
  by (auto simp: cleanup_def offset_free_def split: if_splits)

lemma on_top_ok: "on_top stack f = Inr stack' \<Longrightarrow> stack' \<noteq> []"
  by (cases stack) (auto simp: on_top_def split: sum.splits)

lemma parse_token_error:
  assumes "stack \<noteq> []" "k < length toks" "toks ! k = tok"
    and "parse_token toks k tok stack = Inl e"
  shows "offset_free e \<or> raised_at toks k e"
proof (cases tok)
  case None
  with assms show ?thesis by (simp add: parse_token_def)
next
  case (Some t)
  obtain g rest where st: "stack = g # rest" using assms(1) by (cases stack) auto
  have a: "offset_free e'" if "add_alternative g' = Inl e'" for g' e'
    using that by (auto simp: add_alternative_def offset_free_def split: if_splits)
  have q: "offset_free e'" if "quantify_last g' Q = Inl e'" for g' e' Q
    using that by (auto simp: quantify_last_def offset_free_def split: if_splits)
  from assms(4) Some st show ?thesis
    using assms(2,3) a q cleanup_error
    by (auto simp: parse_token_def raised_at_def on_top_def
        split: if_splits sum.splits list.splits)
qed

lemma parse_token_ok:
  assumes "parse_token toks k tok stack = Inr stack'" "stack \<noteq> []"
  shows "stack' \<noteq> []"
  using assms
  by (auto simp: parse_token_def on_top_def split: option.splits if_splits sum.splits list.splits)

lemma parse_loop_error:
  assumes "stack \<noteq> []" "parse_loop (pre @ rest) (length pre) rest stack = Inl e"
  shows "offset_free e \<or> (\<exists>k. raised_at (pre @ rest) k e)"
  using assms
proof (induction rest arbitrary: pre stack)
  case Nil
  then show ?case by simp
next
  case (Cons tok rest)
  let ?toks = "pre @ tok # rest"
  have k: "length pre < length ?toks" and tk: "?toks ! length pre = tok" by simp_all
  show ?case
  proof (cases "parse_token ?toks (length pre) tok stack")
    case (Inl e')
    with Cons.prems have "e' = e" by simp
    with parse_token_error[OF Cons.prems(1) k tk Inl] show ?thesis by blast
  next
    case (Inr stack')
    with Cons.prems
    have "parse_loop ((pre @ [tok]) @ rest) (length (pre @ [tok])) rest stack' = Inl e"
      by simp
    from Cons.IH[OF parse_token_ok[OF Inr Cons.prems(1)] this] show ?thesis by simp
  qed
qed

lemma parse_loop_ok:
  assumes "parse_loop toks k rest stack = Inr stack'" "stack \<noteq> []"
  shows "stack' \<noteq> []"
  using assms
  by (induction rest arbitrary: k stack) (auto split: sum.splits dest: parse_token_ok)

text \<open>
  Each \<^verbatim>\<open>(\<close> pushes a group and each \<^verbatim>\<open>)\<close> pops one, so the groups left open at the end
  are the \<^verbatim>\<open>(\<close> of the string minus its \<^verbatim>\<open>)\<close>.
\<close>

lemma parens_uncased:
  "\<not> islower ''(''" "\<not> isupper ''(''" "\<not> islower '')''" "\<not> isupper '')''"
  by (simp_all add: parser_defs)

lemma on_top_length: "on_top stack f = Inr stack' \<Longrightarrow> length stack' = length stack"
  by (cases stack) (auto simp: on_top_def split: sum.splits)

lemma parse_token_depth:
  assumes "parse_token toks k tok stack = Inr stack'"
  shows "length stack' + (if tok = Some '')'' then 1 else 0)
       = length stack + (if tok = Some ''('' then 1 else 0)"
proof (cases tok)
  case None
  with assms show ?thesis by (simp add: parse_token_def)
next
  case (Some t)
  consider "t = []" | "t = ''(''" | "t = '')''" | "t \<noteq> []" "t \<noteq> ''(''" "t \<noteq> '')''"
    by blast
  then show ?thesis
  proof cases
    case 1
    with assms Some show ?thesis by (simp add: parse_token_def)
  next
    case 2
    with assms Some show ?thesis by (auto simp: parse_token_def parens_uncased)
  next
    case 3
    with assms Some show ?thesis
      by (auto simp: parse_token_def parens_uncased
          split: list.splits sum.splits if_splits dest: on_top_length)
  next
    case 4
    with assms Some show ?thesis
      by (auto simp: parse_token_def split: if_splits dest: on_top_length)
  qed
qed

lemma parse_loop_depth:
  assumes "parse_loop toks k rest stack = Inr stack'"
  shows "length stack' + count_list rest (Some '')'')
       = length stack + count_list rest (Some ''('')"
  using assms
proof (induction rest arbitrary: k stack)
  case Nil
  then show ?case by simp
next
  case (Cons tok rest)
  from Cons.prems obtain s1 where 1: "parse_token toks k tok stack = Inr s1"
    and 2: "parse_loop toks (Suc k) rest s1 = Inr stack'"
    by (auto split: sum.splits)
  from parse_token_depth[OF 1] Cons.IH[OF 2] show ?case by (auto split: if_splits)
qed

lemma count_re_split:
  assumes "is_operator_char c" "\<not> list_ex is_operator_char cur"
  shows "count_list (re_split cur g) (Some [c]) = count_list g c"
  using assms(2)
proof (induction g arbitrary: cur)
  case Nil
  with assms(1) show ?case by auto
next
  case (Cons x g)
  from assms(1) have sp: "\<not> is_space_char c"
    by (auto simp: is_operator_char_def is_space_char_def)
  from Cons.prems assms(1) have cur: "cur \<noteq> [c]" by auto
  show ?case
  proof (cases "is_operator_char x")
    case True
    with Cons.IH[of "[]"] cur show ?thesis by simp
  next
    case False
    with assms(1) have xc: "x \<noteq> c" by auto
    show ?thesis
    proof (cases "is_space_char x")
      case True
      with False Cons.IH[of "[]"] cur xc show ?thesis by simp
    next
      case sp': False
      from Cons.prems False have "\<not> list_ex is_operator_char (cur @ [x])" by simp
      from Cons.IH[OF this] False sp' xc show ?thesis by simp
    qed
  qed
qed

lemma count_parens:
  "count_list (re_split [] g) (Some ''('') = count_list g (CHR ''('')"
  "count_list (re_split [] g) (Some '')'') = count_list g (CHR '')'')"
  by (simp_all add: count_re_split is_operator_char_def)

text \<open>
  The index reported for \<^verbatim>\<open>ab cd)\<close>, whose \<^verbatim>\<open>)\<close> is the character at offset 5 and follows
  tokens of cumulative length 4: \<^verbatim>\<open>_string_index\<close> sets \<^verbatim>\<open>prev = length\<close>, against its own
  comment, and so returns the sum of the last two token lengths.
\<close>

lemma parse_unmatched_close_index: "parse_grammar ''ab cd)'' = Inl (UnmatchedClose 2)"
  by (simp add: parser_defs)

text \<open>
  Claim C3, as stated, fails: the error for the empty group \<^verbatim>\<open>()\<close> carries no offset.
\<close>

theorem syntax_error_offset_counterexample:
  "parse_grammar ''()'' = Inl EmptyGroup \<and> error_offset EmptyGroup = None"
  by (simp add: parse_empty_group error_offset_def)

text \<open>
  Claim C3, amended. Every error raised while parsing a grammar string has one of three
  shapes. The errors for an empty group, an empty alternative, and a quantifier with no
  preceding sibling or applied twice carry a message and no offset. The errors for an
  unmatched closing group and for an unknown token are raised at the offending token and
  carry an index. The error for unbalanced open groups at the end of the string carries
  the number of missing \<^verbatim>\<open>)\<close>, which is the number of \<^verbatim>\<open>(\<close> in the string minus the number
  of \<^verbatim>\<open>)\<close>, and an index. What value an index has is left open.
\<close>

theorem syntax_error_shapes:
  assumes "parse_grammar g = Inl e"
  shows "(offset_free e \<and> error_offset e = None)
     \<or> (\<exists>k. raised_at (re_split [] g) k e)
     \<or> (count_list g (CHR '')'') < count_list g (CHR ''('')
        \<and> (\<exists>i. e = ExpectedClose (count_list g (CHR ''('') - count_list g (CHR '')'')) i))"
proof (cases "parse_loop (re_split [] g) 0 (re_split [] g) [new_group]")
  case (Inl e')
  with assms have "e' = e" by (simp add: parse_grammar_def)
  with parse_loop_error[of "[new_group]" "[]" "re_split [] g" e] Inl
  show ?thesis using offset_free_no_offset by auto
next
  case (Inr stack)
  from parse_loop_depth[OF Inr]
  have d: "length stack + count_list g (CHR '')'') = 1 + count_list g (CHR ''('')"
    by (simp add: count_parens)
  show ?thesis
  proof (cases "1 < length stack")
    case True
    with assms Inr have "e = ExpectedClose (length stack - 1) (string_index 0 (re_split [] g))"
      by (simp add: parse_grammar_def Let_def)
    moreover from d True
    have "count_list g (CHR '')'') < count_list g (CHR ''('')"
      "length stack - 1 = count_list g (CHR ''('') - count_list g (CHR '')'')"
      by arith+
    ultimately show ?thesis by auto
  next
    case False
    have "stack \<noteq> []" using parse_loop_ok[OF Inr] by simp
    with False have "offset_free e"
      using assms Inr cleanup_error
      by (auto simp: parse_grammar_def Let_def split: if_splits list.splits sum.splits)
    then show ?thesis using offset_free_no_offset by auto
  qed
qed

theorem syntax_error_shapes_witness:
  "parse_grammar ''a**'' = Inl AlreadyQuantified
   \<and> ((offset_free AlreadyQuantified \<and> error_offset AlreadyQuantified = None)
      \<or> (\<exists>k. raised_at (re_split [] ''a**'') k AlreadyQuantified)
      \<or> (count_list ''a**'' (CHR '')'') < count_list ''a**'' (CHR ''('')
         \<and> (\<exists>i. AlreadyQuantified = ExpectedClose
               (count_list ''a**'' (CHR ''('') - count_list ''a**'' (CHR '')'')) i)))"
  using syntax_error_shapes [of "''a**''" AlreadyQuantified] parse_quantifier_twice(1)
  by simp

section \<open>Results of fallible computations\<close>

lemma sequence_map_Inr: "sequence (map Inr xs) = Inr xs"
  by (induction xs) auto

lemma sequence_Inr_iff: "sequence rs = Inr xs \<longleftrightarrow> rs = map Inr xs"
proof
  show "sequence rs = Inr xs \<Longrightarrow> rs = map Inr xs"
    by (induction rs arbitrary: xs) (auto split: sum.splits)
qed (simp add: sequence_map_Inr)

lemma sequence_map_cong_stable:
  assumes "\<And>x. x \<in> set xs \<Longrightarrow> f x \<noteq> Inl RecursionError \<Longrightarrow> g x = f x"
    and "sequence (map f xs) \<noteq> Inl RecursionError"
  shows "sequence (map g xs) = sequence (map f xs)"
  using assms
proof (induction xs)
  case Nil
  then show ?case by simp
next
  case (Cons x xs)
  show ?case
  proof (cases "f x")
    case (Inl e)
    with Cons.prems(2) have "e \<noteq> RecursionError" by auto
    with Cons.prems(1)[of x] Inl show ?thesis by simp
  next
    case (Inr y)
    with Cons.prems(1)[of x] have gx: "g x = Inr y" by simp
    from Cons.prems(2) Inr have "sequence (map f xs) \<noteq> Inl RecursionError"
      by (auto split: sum.splits)
    with Cons.IH Cons.prems(1) have "sequence (map g xs) = sequence (map f xs)" by simp
    with Inr gx show ?thesis by simp
  qed
qed

lemma collect_map_cong_stable:
  assumes "\<And>x. x \<in> set xs \<Longrightarrow> f x \<noteq> Inl RecursionError \<Longrightarrow> g x = f x"
    and "collect (map f xs) \<noteq> Inl RecursionError"
  shows "collect (map g xs) = collect (map f xs)"
proof -
  from assms(2) have "sequence (map f xs) \<noteq> Inl RecursionError"
    by (auto simp: collect_def split: sum.splits)
  from sequence_map_cong_stable[OF assms(1) this] show ?thesis by (simp add: collect_def)
qed

lemma collect_Inr_iff: "collect rs = Inr ys \<longleftrightarrow> (\<exists>xss. rs = map Inr xss \<and> ys = concat xss)"
proof (cases "sequence rs")
  case (Inl e)
  then have "rs \<noteq> map Inr xss" for xss by (auto simp: sequence_map_Inr)
  with Inl show ?thesis by (simp add: collect_def)
next
  case (Inr xss)
  then have "rs = map Inr xss" by (simp add: sequence_Inr_iff)
  then show ?thesis by (auto simp: collect_def sequence_map_Inr)
qed

lemma map_eq_map_left:
  assumes "map f xs = map g ys" "x \<in> set xs"
  shows "\<exists>y\<in>set ys. f x = g y"
proof -
  from assms(2) have "f x \<in> set (map f xs)" by simp
  with assms(1) have "f x \<in> set (map g ys)" by simp
  then show ?thesis by auto
qed

lemma map_eq_map_right:
  assumes "map f xs = map g ys" "y \<in> set ys"
  shows "\<exists>x\<in>set xs. f x = g y"
proof -
  from assms(2) have "g y \<in> set (map g ys)" by simp
  with assms(1) have "g y \<in> set (map f xs)" by simp
  then show ?thesis by auto
qed

lemma collect_all_Inr:
  assumes "\<And>x. x \<in> set xs \<Longrightarrow> \<exists>y. f x = Inr y"
  shows "\<exists>ys. collect (map f xs) = Inr ys"
  using assms
proof (induction xs)
  case Nil
  then show ?case by (simp add: collect_def)
next
  case (Cons x xs)
  from Cons.prems[of x] obtain y where y: "f x = Inr y" by auto
  from Cons.IH Cons.prems obtain ys where "collect (map f xs) = Inr ys" by auto
  with y show ?case by (auto simp: collect_def split: sum.splits)
qed


section \<open>A deeper recursion limit changes no result\<close>

text \<open>
  A run that does not end in \<open>RecursionError\<close> gives the same result under every larger
  depth bound.
\<close>

lemma transition_Suc:
  "transition d tbl i tok \<noteq> Inl RecursionError \<Longrightarrow>
   transition (Suc d) tbl i tok = transition d tbl i tok"
proof (induction d arbitrary: i)
  case 0
  then show ?case by simp
next
  case (Suc d)
  show ?case
  proof (cases "i < length tbl \<and> eps (tbl ! i) \<noteq> None")
    case False
    then show ?thesis by (auto split: option.splits)
  next
    case True
    then obtain ns where ns: "eps (tbl ! i) = Some ns" by auto
    with True Suc.prems
    have "collect (map (\<lambda>n. transition d tbl n tok) ns) \<noteq> Inl RecursionError" by simp
    from collect_map_cong_stable[of ns "\<lambda>n. transition d tbl n tok"
        "\<lambda>n. transition (Suc d) tbl n tok", OF Suc.IH this]
    show ?thesis using True ns by simp
  qed
qed

lemma transition_mono:
  "transition d tbl i tok \<noteq> Inl RecursionError \<Longrightarrow> d \<le> d' \<Longrightarrow>
   transition d' tbl i tok = transition d tbl i tok"
proof -
  have "transition d tbl i tok \<noteq> Inl RecursionError \<Longrightarrow>
        transition (d + k) tbl i tok = transition d tbl i tok" for k
    by (induction k) (simp_all add: transition_Suc del: transition.simps)
  from this[of "d' - d"] show "transition d tbl i tok \<noteq> Inl RecursionError \<Longrightarrow> d \<le> d' \<Longrightarrow>
   transition d' tbl i tok = transition d tbl i tok" by simp
qed


lemma trans_emit_Suc:
  "trans_emit d tbl i tok ems \<noteq> Inl RecursionError \<Longrightarrow>
   trans_emit (Suc d) tbl i tok ems = trans_emit d tbl i tok ems"
proof (induction d arbitrary: i ems)
  case 0
  then show ?case by simp
next
  case (Suc d)
  show ?case
  proof (cases "i < length tbl \<and> eps (tbl ! i) \<noteq> None")
    case False
    then show ?thesis by (auto simp: Let_def split: option.splits)
  next
    case True
    then obtain ns where ns: "eps (tbl ! i) = Some ns" by auto
    define ems' where "ems' = (case emit (tbl ! i) of Some rule \<Rightarrow> ems @ [rule] | None \<Rightarrow> ems)"
    with True Suc.prems ns
    have "collect (map (\<lambda>n. trans_emit d tbl n tok ems') ns) \<noteq> Inl RecursionError"
      by (simp add: Let_def)
    from collect_map_cong_stable[of ns "\<lambda>n. trans_emit d tbl n tok ems'"
        "\<lambda>n. trans_emit (Suc d) tbl n tok ems'", OF Suc.IH this]
    show ?thesis using True ns by (simp add: Let_def ems'_def)
  qed
qed

lemma trans_expected_Suc:
  "trans_expected d tbl i tok \<noteq> Inl RecursionError \<Longrightarrow>
   trans_expected (Suc d) tbl i tok = trans_expected d tbl i tok"
proof (induction d arbitrary: i)
  case 0
  then show ?case by simp
next
  case (Suc d)
  show ?case
  proof (cases "i < length tbl \<and> eps (tbl ! i) \<noteq> None")
    case False
    then show ?thesis by (auto simp: Let_def split: option.splits)
  next
    case True
    then obtain ns where ns: "eps (tbl ! i) = Some ns" by auto
    with True Suc.prems
    have "collect (map (\<lambda>n. trans_expected d tbl n tok) ns) \<noteq> Inl RecursionError"
      by (simp add: Let_def)
    from collect_map_cong_stable[of ns "\<lambda>n. trans_expected d tbl n tok"
        "\<lambda>n. trans_expected (Suc d) tbl n tok", OF Suc.IH this]
    show ?thesis using True ns by (simp add: Let_def)
  qed
qed

lemma matches_step_Suc:
  assumes "matches_step d tbl states tok \<noteq> Inl RecursionError"
  shows "matches_step (Suc d) tbl states tok = matches_step d tbl states tok"
proof -
  from assms have "collect (map (\<lambda>st. transition d tbl st tok) states) \<noteq> Inl RecursionError"
    by (auto simp: matches_step_def split: sum.splits)
  from collect_map_cong_stable[of states "\<lambda>st. transition d tbl st tok"
        "\<lambda>st. transition (Suc d) tbl st tok", OF transition_Suc this]
  show ?thesis by (simp add: matches_step_def)
qed

lemma matches_loop_Suc:
  "matches_loop d tbl states toks \<noteq> Inl RecursionError \<Longrightarrow>
   matches_loop (Suc d) tbl states toks = matches_loop d tbl states toks"
proof (induction toks arbitrary: states)
  case Nil
  then show ?case by simp
next
  case (Cons tok toks)
  from Cons.prems have "matches_step d tbl states tok \<noteq> Inl RecursionError"
    by (auto split: sum.splits)
  from matches_step_Suc[OF this] Cons show ?case
    by (auto split: sum.splits)
qed

lemma matches_Suc:
  assumes "matches d tbl toks \<noteq> Inl RecursionError"
  shows "matches (Suc d) tbl toks = matches d tbl toks"
proof -
  from assms have "matches_loop d tbl [0] (map Lit toks @ [END]) \<noteq> Inl RecursionError"
    by (auto simp: matches_def split: sum.splits)
  from matches_loop_Suc[OF this] show ?thesis by (simp add: matches_def)
qed

lemma matches_mono:
  assumes "matches d tbl toks \<noteq> Inl RecursionError" "d \<le> d'"
  shows "matches d' tbl toks = matches d tbl toks"
proof -
  have "matches (d + k) tbl toks = matches d tbl toks" for k
    using assms(1) by (induction k) (simp_all add: matches_Suc)
  from this[of "d' - d"] assms(2) show ?thesis by simp
qed

lemma advance_path_Suc:
  assumes "advance_path d tbl tok p \<noteq> Inl RecursionError"
  shows "advance_path (Suc d) tbl tok p = advance_path d tbl tok p"
proof -
  from assms have "trans_emit d tbl (fst p) tok [] \<noteq> Inl RecursionError"
    by (auto simp: advance_path_def split: sum.splits)
  from trans_emit_Suc[OF this] show ?thesis by (simp add: advance_path_def)
qed

lemma failure_Suc:
  assumes "failure d tbl tok p \<noteq> Inl RecursionError"
  shows "failure (Suc d) tbl tok p = failure d tbl tok p"
proof -
  from assms have "trans_expected d tbl (fst p) tok \<noteq> Inl RecursionError"
    by (auto simp: failure_def split: sum.splits)
  from trans_expected_Suc[OF this] show ?thesis by (simp add: failure_def)
qed

lemma annotate_step_Suc:
  assumes "annotate_step d tbl paths tok \<noteq> Inl RecursionError"
  shows "annotate_step (Suc d) tbl paths tok = annotate_step d tbl paths tok"
proof -
  from assms have c: "collect (map (advance_path d tbl tok) paths) \<noteq> Inl RecursionError"
    by (auto simp: annotate_step_def split: sum.splits)
  have 1: "collect (map (advance_path (Suc d) tbl tok) paths)
      = collect (map (advance_path d tbl tok) paths)"
    by (rule collect_map_cong_stable[OF advance_path_Suc c])
  show ?thesis
  proof (cases "collect (map (advance_path d tbl tok) paths) = Inr []")
    case True
    with assms have "sequence (map (failure d tbl tok) paths) \<noteq> Inl RecursionError"
      by (auto simp: annotate_step_def split: sum.splits)
    from sequence_map_cong_stable[of paths "failure d tbl tok" "failure (Suc d) tbl tok",
        OF failure_Suc this]
    show ?thesis using 1 True by (simp add: annotate_step_def)
  next
    case False
    then show ?thesis unfolding annotate_step_def 1 by (auto split: sum.splits)
  qed
qed

lemma annotate_loop_Suc:
  "annotate_loop d tbl paths toks \<noteq> Inl RecursionError \<Longrightarrow>
   annotate_loop (Suc d) tbl paths toks = annotate_loop d tbl paths toks"
proof (induction toks arbitrary: paths)
  case Nil
  then show ?case by simp
next
  case (Cons tok toks)
  from Cons.prems have "annotate_step d tbl paths tok \<noteq> Inl RecursionError"
    by (auto split: sum.splits)
  from annotate_step_Suc[OF this] Cons show ?case
    by (auto split: sum.splits)
qed

lemma annotate_Suc:
  assumes "annotate d tbl toks \<noteq> Inl RecursionError"
  shows "annotate (Suc d) tbl toks = annotate d tbl toks"
proof -
  from assms have "annotate_loop d tbl [(0, [])] (map Lit toks @ [END]) \<noteq> Inl RecursionError"
    by (auto simp: annotate_def split: sum.splits)
  from annotate_loop_Suc[OF this] show ?thesis by (simp add: annotate_def)
qed

lemma annotate_mono:
  assumes "annotate d tbl toks \<noteq> Inl RecursionError" "d \<le> d'"
  shows "annotate d' tbl toks = annotate d tbl toks"
proof -
  have "annotate (d + k) tbl toks = annotate d tbl toks" for k
    using assms(1) by (induction k) (simp_all add: annotate_Suc)
  from this[of "d' - d"] assms(2) show ?thesis by simp
qed

section \<open>The grammar \<^verbatim>\<open>take (ITEM)\<close>\<close>

lemmas builder_defs = to_nfa.simps then_build_def emitter_def match_on_def plus_nfa_def
  add_epsilon_last_def add_epsilon_at_def add_epsilon_def empty_state_def concat_nfas_def
  concat_step_def shift_table_def shift_state_def star_def optional_def

lemma compile_take_item: "compile ''take (ITEM)'' = Inr take_item"
  by (simp add: compile_def parser_defs builder_defs take_item_def)

lemmas run_defs = matches_def matches_step_def collect_def consume_def
  annotate_def annotate_step_def advance_path_def push_path_def reduce_stack_def
  is_str_def str_of_def failure_def state_keys_def

lemma take_item_matches: "matches 4 take_item [''take'', ''sword''] = Inr True"
  by (simp add: take_item_def run_defs eval_nat_numeral)
lemma take_item_rejects: "matches 4 take_item [''take''] = Inr False"
  by (simp add: take_item_def run_defs eval_nat_numeral)
lemma take_item_annotate: "annotate 4 take_item [''take'', ''sword'']
   = Inr [[Parsed (Keyword ''take'') [''take''], Parsed (Variable [''ITEM'']) [''sword''], Tok END]]"
  by (simp add: take_item_def run_defs eval_nat_numeral)

text \<open>
  Claim C8. The grammar \<^verbatim>\<open>take (ITEM)\<close> compiles, and under every recursion limit of at
  least 4: \<^verbatim>\<open>matches(['take', 'sword'])\<close> is true, \<^verbatim>\<open>matches(['take'])\<close> is false, and
  \<^verbatim>\<open>annotate(['take', 'sword'])\<close> returns exactly one interpretation, in which the rule
  \<^verbatim>\<open>Variable('ITEM')\<close> claims the token list \<^verbatim>\<open>['sword']\<close>.
\<close>

theorem take_item_grammar:
  assumes "4 \<le> depth"
  shows "\<exists>tbl. compile ''take (ITEM)'' = Inr tbl
     \<and> matches depth tbl [''take'', ''sword''] = Inr True
     \<and> matches depth tbl [''take''] = Inr False
     \<and> annotate depth tbl [''take'', ''sword'']
         = Inr [[Parsed (Keyword ''take'') [''take''],
                 Parsed (Variable [''ITEM'']) [''sword''], Tok END]]"
  using compile_take_item
    matches_mono[OF _ assms, of take_item "[''take'', ''sword'']"]
    matches_mono[OF _ assms, of take_item "[''take'']"]
    annotate_mono[OF _ assms, of take_item "[''take'', ''sword'']"]
  by (simp add: take_item_matches take_item_rejects take_item_annotate)

theorem take_item_grammar_witness:
  "(4::nat) \<le> 1000
   \<and> (\<exists>tbl. compile ''take (ITEM)'' = Inr tbl
     \<and> matches 1000 tbl [''take'', ''sword''] = Inr True
     \<and> matches 1000 tbl [''take''] = Inr False
     \<and> annotate 1000 tbl [''take'', ''sword'']
         = Inr [[Parsed (Keyword ''take'') [''take''],
                 Parsed (Variable [''ITEM'']) [''sword''], Tok END]])"
  using take_item_grammar [of 1000] by simp

section \<open>Properties of \<^verbatim>\<open>annotate\<close>\<close>

lemma annotate_loop_append:
  "annotate_loop d tbl paths (xs @ ys) =
     (case annotate_loop d tbl paths xs of Inl e \<Rightarrow> Inl e | Inr ps \<Rightarrow> annotate_loop d tbl ps ys)"
  by (induction xs arbitrary: paths) (auto split: sum.splits)

lemma push_path_last:
  assumes "push_path stack tok y = Inr q"
  shows "snd q \<noteq> [] \<and> last (snd q) = Tok tok"
  using assms by (auto simp: push_path_def reduce_stack_def Let_def split: list.splits)

lemma advance_path_last:
  assumes "advance_path d tbl tok p = Inr qs" "q \<in> set qs"
  shows "snd q \<noteq> [] \<and> last (snd q) = Tok tok"
proof -
  from assms(1) obtain ys where "map (push_path (snd p) tok) ys = map Inr qs"
    by (auto simp: advance_path_def sequence_Inr_iff split: sum.splits)
  from map_eq_map_right[OF this assms(2)] obtain y where "push_path (snd p) tok y = Inr q"
    by auto
  then show ?thesis by (rule push_path_last)
qed

lemma annotate_step_last:
  assumes "annotate_step d tbl paths tok = Inr qs" "q \<in> set qs"
  shows "snd q \<noteq> [] \<and> last (snd q) = Tok tok"
proof -
  from assms(1) have "collect (map (advance_path d tbl tok) paths) = Inr qs"
    by (auto simp: annotate_step_def split: sum.splits if_splits)
  then obtain xss where x: "map (advance_path d tbl tok) paths = map Inr xss" "qs = concat xss"
    by (auto simp: collect_Inr_iff)
  with assms(2) obtain xs where xs: "xs \<in> set xss" "q \<in> set xs" by auto
  from map_eq_map_right[OF x(1) xs(1)] obtain p where "advance_path d tbl tok p = Inr xs"
    by auto
  from advance_path_last[OF this xs(2)] show ?thesis .
qed

text \<open>
  Claim C9. Whenever \<^verbatim>\<open>annotate\<close> returns, every returned interpretation is non-empty
  and its final entry is the marker \<^verbatim>\<open>Token.END\<close>, which is not one of the caller's
  tokens (those are strings).
\<close>

theorem annotate_stacks_end_with_END:
  assumes "annotate depth tbl toks = Inr stacks"
  shows "list_all (\<lambda>stack. stack \<noteq> [] \<and> last stack = Tok END) stacks
     \<and> Tok END \<notin> set (map (\<lambda>t. Tok (Lit t)) toks)"
proof -
  from assms obtain qs
    where qs: "annotate_loop depth tbl [(0, [])] (map Lit toks @ [END]) = Inr qs"
      and st: "stacks = map snd qs"
    by (auto simp: annotate_def split: sum.splits)
  from qs obtain ps where "annotate_step depth tbl ps END = Inr qs"
    by (auto simp: annotate_loop_append split: sum.splits)
  from annotate_step_last[OF this] st show ?thesis by (auto simp: list_all_iff)
qed

theorem annotate_stacks_end_with_END_witness:
  "annotate 4 take_item [''take'', ''sword'']
     = Inr [[Parsed (Keyword ''take'') [''take''], Parsed (Variable [''ITEM'']) [''sword''],
             Tok END]]
   \<and> list_all (\<lambda>stack. stack \<noteq> [] \<and> last stack = Tok END)
        [[Parsed (Keyword ''take'') [''take''], Parsed (Variable [''ITEM'']) [''sword''],
          Tok END]]
   \<and> Tok END \<notin> set (map (\<lambda>t. Tok (Lit t)) [''take'', ''sword''])"
  using annotate_stacks_end_with_END [OF take_item_annotate] take_item_annotate by simp

lemma trans_emit_expected:
  "trans_emit d tbl i tok ems = Inr ys \<Longrightarrow> \<exists>exp. trans_expected d tbl i tok = Inr exp"
proof (induction d arbitrary: i ems ys)
  case 0
  then show ?case by simp
next
  case (Suc d)
  show ?case
  proof (cases "i < length tbl \<and> eps (tbl ! i) \<noteq> None")
    case False
    with Suc.prems show ?thesis by (auto simp: Let_def split: if_splits)
  next
    case True
    then obtain ns where ns: "eps (tbl ! i) = Some ns" by auto
    define ems' where "ems' = (case emit (tbl ! i) of Some rule \<Rightarrow> ems @ [rule] | None \<Rightarrow> ems)"
    from Suc.prems True ns
    have "collect (map (\<lambda>n. trans_emit d tbl n tok ems') ns) = Inr ys"
      by (simp add: Let_def ems'_def)
    then obtain xss where "map (\<lambda>n. trans_emit d tbl n tok ems') ns = map Inr xss"
      by (auto simp: collect_Inr_iff)
    then have "\<exists>y. trans_emit d tbl n tok ems' = Inr y" if "n \<in> set ns" for n
      using map_eq_map_left[OF _ that] by blast
    with Suc.IH have "\<exists>y. trans_expected d tbl n tok = Inr y" if "n \<in> set ns" for n
      using that by blast
    from collect_all_Inr[of ns "\<lambda>n. trans_expected d tbl n tok", OF this]
    show ?thesis using True ns by (simp add: Let_def)
  qed
qed

lemma annotate_step_dead:
  assumes "list_all (\<lambda>p. trans_emit d tbl (fst p) tok [] = Inr []) paths"
  shows "annotate_step d tbl paths tok
     = Inl (ParseError ((\<lambda>p. Fail (expected_of d tbl (fst p) tok) tok) ` set paths))"
proof -
  have a: "map (advance_path d tbl tok) paths = map Inr (map (\<lambda>p. []) paths)"
    using assms by (auto simp: list_all_iff advance_path_def)
  have c: "collect (map (advance_path d tbl tok) paths) = Inr []"
    unfolding a by (simp only: collect_def sequence_map_Inr) simp
  have "failure d tbl tok p = Inr (Fail (expected_of d tbl (fst p) tok) tok)" if "p \<in> set paths" for p
  proof -
    from that assms have "trans_emit d tbl (fst p) tok [] = Inr []" by (simp add: list_all_iff)
    from trans_emit_expected[OF this] show ?thesis
      by (auto simp: failure_def expected_of_def)
  qed
  then have "map (failure d tbl tok) paths
      = map Inr (map (\<lambda>p. Fail (expected_of d tbl (fst p) tok) tok) paths)"
    by simp
  then have "sequence (map (failure d tbl tok) paths)
      = Inr (map (\<lambda>p. Fail (expected_of d tbl (fst p) tok) tok) paths)"
    by (simp only: sequence_map_Inr)
  with c show ?thesis by (simp add: annotate_step_def)
qed

lemma re_split_plain:
  "\<not> list_ex is_operator_char k \<Longrightarrow> \<not> list_ex is_space_char k \<Longrightarrow> re_split cur k = [Some (cur @ k)]"
  by (induction k arbitrary: cur) auto

lemma islower_not_upper: "islower k \<Longrightarrow> k \<noteq> [] \<and> \<not> isupper k"
  by (auto simp: islower_def isupper_def)

lemma parse_keyword:
  assumes "islower k" "\<not> list_ex is_operator_char k" "\<not> list_ex is_space_char k"
  shows "parse_grammar k = Inr (Group [Keyword k] [])"
  using assms islower_not_upper[OF assms(1)]
  by (simp add: parse_grammar_def re_split_plain parse_token_def on_top_def new_group_def
      add_def cleanup_def to_grammar_def)

lemma to_nfa_Keyword:
  "to_nfa (Keyword k) = Inr
     [\<lparr>eps = None, emit = None, edges = [(Lit k, 1)]\<rparr>,
      \<lparr>eps = Some [2], emit = None, edges = []\<rparr>,
      \<lparr>eps = None, emit = Some (Keyword k), edges = []\<rparr>]"
  by (simp add: builder_defs)

lemma to_nfa_Variable:
  "to_nfa (Variable ts) = Inr
     [\<lparr>eps = None, emit = None, edges = [(ANY, 1)]\<rparr>,
      \<lparr>eps = Some [0, 2], emit = None, edges = []\<rparr>,
      \<lparr>eps = Some [3], emit = None, edges = []\<rparr>,
      \<lparr>eps = None, emit = Some (Variable ts), edges = []\<rparr>]"
  by (simp add: builder_defs)

lemma compile_keyword:
  assumes "islower k" "\<not> list_ex is_operator_char k" "\<not> list_ex is_space_char k"
  shows "compile k = to_nfa (Keyword k)"
  using parse_keyword[OF assms]
  by (simp add: compile_def builder_defs)

lemma keyword_mismatch:
  assumes "t \<noteq> k" "0 < d"
  shows "\<exists>tbl. to_nfa (Keyword k) = Inr tbl
     \<and> annotate d tbl [t] = Inl (ParseError {Fail {Lit k} (Lit t)})"
proof -
  from assms(2) obtain d' where d: "d = Suc d'" by (cases d) auto
  show ?thesis using assms(1) unfolding to_nfa_Keyword d
    by (simp add: run_defs)
qed

section \<open>What a \<^verbatim>\<open>Variable\<close> matches\<close>

lemma to_nfa_Variable_table: "to_nfa (Variable types) = Inr (variable_table types)"
  by (simp add: builder_defs variable_table_def)

lemma variable_step_first:
  "matches_step (Suc (Suc (Suc d))) (variable_table types) [0] (Lit w) = Inr [1]"
  by (simp add: variable_table_def matches_step_def collect_def consume_def)

lemma variable_step_word:
  "matches_step (Suc (Suc (Suc d))) (variable_table types) [1] (Lit w) = Inr [1]"
  by (simp add: variable_table_def matches_step_def collect_def consume_def)

lemma variable_step_end:
  "matches_step (Suc (Suc (Suc d))) (variable_table types) [1] END = Inr [3]"
  by (simp add: variable_table_def matches_step_def collect_def consume_def)

lemma variable_loop:
  "matches_loop (Suc (Suc (Suc d))) (variable_table types) [1] (map Lit ws @ [END]) = Inr [3]"
proof (induction ws)
  case Nil
  show ?case
    by (simp only: list.map append_Nil matches_loop.simps variable_step_end sum.case)
next
  case (Cons w ws)
  then show ?case
    by (simp only: list.map append_Cons matches_loop.simps variable_step_word sum.case)
qed

lemma variable_matches:
  assumes "3 \<le> depth"
  shows "matches depth (variable_table types) toks = Inr (toks \<noteq> [])"
proof -
  from assms obtain d where "depth = 3 + d" using le_Suc_ex by blast
  then have d: "depth = Suc (Suc (Suc d))" by simp
  show ?thesis
  proof (cases toks)
    case Nil
    then show ?thesis unfolding d
      by (simp add: variable_table_def matches_def matches_step_def collect_def consume_def)
  next
    case (Cons w ws)
    have "matches_loop depth (variable_table types) [0] (map Lit toks @ [END]) = Inr [3]"
      unfolding d Cons
      by (simp only: list.map append_Cons matches_loop.simps variable_step_first sum.case
          variable_loop)
    then show ?thesis using Cons by (simp add: matches_def variable_table_def)
  qed
qed

lemma take_item_two_words:
  "matches 4 take_item [''take'', ''treasure'', ''guardian''] = Inr True"
  by (simp add: take_item_def run_defs eval_nat_numeral)

lemma take_item_step_take:
  "matches_step (Suc (Suc (Suc d))) take_item [0] (Lit ''take'') = Inr [1]"
  by (simp add: take_item_def matches_step_def collect_def consume_def)

lemma take_item_step_first:
  "matches_step (Suc (Suc (Suc d))) take_item [1] (Lit w) = Inr [4]"
  by (simp add: take_item_def matches_step_def collect_def consume_def)

lemma take_item_step_word:
  "matches_step (Suc (Suc (Suc d))) take_item [4] (Lit w) = Inr [4]"
  by (simp add: take_item_def matches_step_def collect_def consume_def)

lemma take_item_step_end:
  "matches_step (Suc (Suc (Suc d))) take_item [4] END = Inr [6]"
  by (simp add: take_item_def matches_step_def collect_def consume_def)

lemma take_item_step_early_end:
  "matches_step (Suc (Suc (Suc d))) take_item [1] END = Inr []"
  by (simp add: take_item_def matches_step_def collect_def consume_def)

lemma take_item_loop:
  "matches_loop (Suc (Suc (Suc d))) take_item [4] (map Lit ws @ [END]) = Inr [6]"
proof (induction ws)
  case Nil
  show ?case
    by (simp only: list.map append_Nil matches_loop.simps take_item_step_end sum.case)
next
  case (Cons w ws)
  then show ?case
    by (simp only: list.map append_Cons matches_loop.simps take_item_step_word sum.case)
qed

lemma take_item_matches_words:
  assumes "3 \<le> depth"
  shows "matches depth take_item (''take'' # ws) = Inr (ws \<noteq> [])"
proof -
  from assms obtain d where "depth = 3 + d" using le_Suc_ex by blast
  then have d: "depth = Suc (Suc (Suc d))" by simp
  show ?thesis
  proof (cases ws)
    case Nil
    have "matches_loop depth take_item [0] (map Lit [''take''] @ [END]) = Inr []"
      unfolding d
      by (simp only: list.map append_Cons append_Nil matches_loop.simps take_item_step_take
          take_item_step_early_end sum.case)
    then show ?thesis using Nil by (simp add: matches_def)
  next
    case (Cons w ws')
    have "matches_loop depth take_item [0] (map Lit (''take'' # w # ws') @ [END]) = Inr [6]"
      unfolding d
      by (simp only: list.map append_Cons matches_loop.simps take_item_step_take
          take_item_step_first sum.case take_item_loop)
    then show ?thesis using Cons by (simp add: matches_def take_item_def)
  qed
qed

text \<open>
  Claim C2, as stated, fails: the table of a \<^verbatim>\<open>Variable\<close> has four states, and the grammar
  \<^verbatim>\<open>take (ITEM)\<close> matches an input that gives two tokens to the placeholder.
\<close>

theorem variable_single_token_counterexample:
  "to_nfa (Variable [''ITEM'']) = Inr (variable_table [''ITEM''])
   \<and> length (variable_table [''ITEM'']) = 4
   \<and> compile ''take (ITEM)'' = Inr take_item
   \<and> matches 4 take_item [''take'', ''treasure'', ''guardian''] = Inr True"
  using take_item_matches_words[of 4 "[''treasure'', ''guardian'']"]
  by (simp add: to_nfa_Variable_table compile_take_item del: to_nfa.simps)
    (simp add: variable_table_def)

text \<open>
  Claim C2, amended. A \<^verbatim>\<open>Variable\<close> node compiles to a four-state fragment: the two-state
  \<^verbatim>\<open>ANY\<close> matcher, with the epsilon loop of \<^verbatim>\<open>NFA.plus\<close> from its accept state back to
  its start, followed by the emitting state. It matches one or more tokens of any value;
  consequently the grammar \<^verbatim>\<open>take (ITEM)\<close> matches \<^verbatim>\<open>take\<close> followed by any non-empty
  sequence of tokens.
\<close>

theorem variable_matches_one_or_more:
  "to_nfa (Variable types) = Inr (variable_table types)
   \<and> length (variable_table types) = 4
   \<and> (3 \<le> depth \<longrightarrow>
        matches depth (variable_table types) toks = Inr (toks \<noteq> [])
        \<and> compile ''take (ITEM)'' = Inr take_item
        \<and> matches depth take_item (''take'' # toks) = Inr (toks \<noteq> []))"
  using variable_matches[of depth types toks] take_item_matches_words[of depth toks]
  by (simp add: to_nfa_Variable_table compile_take_item del: to_nfa.simps)
    (simp add: variable_table_def)

theorem variable_matches_one_or_more_witness:
  "to_nfa (Variable [''ITEM'']) = Inr (variable_table [''ITEM''])
   \<and> length (variable_table [''ITEM'']) = 4
   \<and> (3::nat) \<le> 1000
   \<and> matches 1000 (variable_table [''ITEM'']) [''treasure'', ''guardian''] = Inr True
   \<and> compile ''take (ITEM)'' = Inr take_item
   \<and> matches 1000 take_item [''take'', ''treasure'', ''guardian''] = Inr True"
  using variable_matches_one_or_more [of "[''ITEM'']" 1000 "[''treasure'', ''guardian'']"]
  by simp

section \<open>Every built table is well formed\<close>

lemma length_shift_table [simp]: "length (shift_table k tbl) = length tbl"
  by (simp add: shift_table_def)

lemma shift_table_Nil [simp]: "shift_table k tbl = [] \<longleftrightarrow> tbl = []"
  by (simp add: shift_table_def)

lemma inv_well_formed:
  assumes "table_inv tbl"
  shows "well_formed tbl"
proof -
  from assms have ne: "tbl \<noteq> []" and t: "terminal (last tbl)" and g: "list_all good tbl"
    by (auto simp: table_inv_def)
  have last: "tbl ! (length tbl - 1) = last tbl" using ne by (simp add: last_conv_nth)
  have "accepts_end tbl i \<longleftrightarrow> i = length tbl - 1" if "i < length tbl" for i
  proof -
    from g that have "map_of (edges (tbl ! i)) END = None"
      by (auto simp: list_all_length good_def)
    then show ?thesis using t last
      by (auto simp: accepts_end_def consume_def terminal_def Let_def)
  qed
  then have "filter (accepts_end tbl) [0..<length tbl] = filter (\<lambda>i. i = length tbl - 1) [0..<length tbl]"
    by (intro filter_cong) auto
  also have "\<dots> = [length tbl - 1]"
    using ne by (induction tbl rule: rev_induct) auto
  finally show ?thesis using ne t g by (auto simp: well_formed_def good_def list_all_iff)
qed

lemma add_epsilon_Inr:
  assumes "add_epsilon st i = Inr st'"
  shows "edges st = []" "edges st' = []" "emit st' = emit st"
    "eps st' = Some ((case eps st of None \<Rightarrow> [] | Some l \<Rightarrow> l) @ [i])"
  using assms by (auto simp: add_epsilon_def split: if_splits)

lemma add_epsilon_at_Inr:
  assumes "add_epsilon_at tbl j i = Inr tbl'"
  shows "j < length tbl \<and> (\<exists>st'. add_epsilon (tbl ! j) i = Inr st' \<and> tbl' = tbl[j := st'])"
  using assms by (auto simp: add_epsilon_at_def split: if_splits sum.splits)

lemma add_epsilon_last_Inr:
  assumes "add_epsilon_last tbl i = Inr tbl'"
  shows "tbl \<noteq> [] \<and> (\<exists>st'. add_epsilon (last tbl) i = Inr st' \<and> tbl' = butlast tbl @ [st'])"
proof -
  from assms have ne: "tbl \<noteq> []" and "add_epsilon_at tbl (length tbl - 1) i = Inr tbl'"
    by (auto simp: add_epsilon_last_def split: if_splits)
  from add_epsilon_at_Inr[OF this(2)] obtain st'
    where "add_epsilon (tbl ! (length tbl - 1)) i = Inr st'" "tbl' = tbl[length tbl - 1 := st']"
    by auto
  moreover have "tbl[length tbl - 1 := st'] = butlast tbl @ [st']"
    using ne by (induction tbl rule: rev_induct) auto
  ultimately show ?thesis using ne by (auto simp: last_conv_nth)
qed

lemma good_add_epsilon: "add_epsilon st i = Inr st' \<Longrightarrow> good st'"
  using add_epsilon_Inr(2)[of st i st'] by (simp add: good_def exclusive_def)

lemma good_shift_state: "good st \<Longrightarrow> good (shift_state k st)"
  by (auto simp: good_def exclusive_def shift_state_def map_of_map)

lemma terminal_shift_state: "terminal st \<Longrightarrow> terminal (shift_state k st)"
  by (auto simp: terminal_def shift_state_def)

lemma good_shift_table: "list_all good tbl \<Longrightarrow> list_all good (shift_table k tbl)"
  by (auto simp: shift_table_def list_all_iff good_shift_state)

lemma good_empty_state: "good empty_state" "terminal empty_state"
  by (simp_all add: good_def exclusive_def empty_state_def terminal_def)

lemma good_add_epsilon_last:
  assumes "add_epsilon_last tbl i = Inr tbl'" "list_all good tbl"
  shows "list_all good tbl'" "length tbl' = length tbl" "tbl' \<noteq> []"
proof -
  from add_epsilon_last_Inr[OF assms(1)] obtain st'
    where ne: "tbl \<noteq> []" and st: "add_epsilon (last tbl) i = Inr st'" and t: "tbl' = butlast tbl @ [st']"
    by auto
  from assms(2) have "list_all good (butlast tbl)"
    by (auto simp: list_all_iff dest: in_set_butlastD)
  with good_add_epsilon[OF st] t show "list_all good tbl'" by simp
  from ne t show "length tbl' = length tbl" "tbl' \<noteq> []" by simp_all
qed

lemma inv_star:
  assumes "list_all good nfa" "star nfa = Inr tbl"
  shows "table_inv tbl"
proof -
  from assms(2) obtain s1 s2 where
    1: "add_epsilon_last (shift_table 1 nfa) 0 = Inr s1"
    and 2: "add_epsilon_last s1 (length s1 + 1) = Inr s2"
    and t: "tbl = [\<lparr>eps = Some [1, length s2 + 1], emit = None, edges = []\<rparr>] @ s2 @ [empty_state]"
    by (auto simp: star_def Let_def split: sum.splits)
  from good_add_epsilon_last(1)[OF 1 good_shift_table[OF assms(1)]]
  have "list_all good s1" .
  from good_add_epsilon_last(1)[OF 2 this] have "list_all good s2" .
  then show ?thesis unfolding t
    by (simp add: table_inv_def good_empty_state) (simp add: good_def exclusive_def)
qed

lemma inv_optional:
  assumes "list_all good nfa" "optional nfa = Inr tbl"
  shows "table_inv tbl"
proof -
  from assms(2) obtain s1 where
    1: "add_epsilon_last (shift_table 1 nfa) (length (shift_table 1 nfa) + 1) = Inr s1"
    and t: "tbl = [\<lparr>eps = Some [1, length s1 + 1], emit = None, edges = []\<rparr>] @ s1 @ [empty_state]"
    by (auto simp: optional_def Let_def split: sum.splits)
  from good_add_epsilon_last(1)[OF 1 good_shift_table[OF assms(1)]]
  have "list_all good s1" .
  then show ?thesis unfolding t
    by (simp add: table_inv_def good_empty_state) (simp add: good_def exclusive_def)
qed

lemma inv_plus:
  assumes "list_all good nfa" "plus_nfa nfa = Inr tbl"
  shows "table_inv tbl"
proof -
  from assms(2) obtain s1 s2 where
    1: "add_epsilon_last nfa 0 = Inr s1"
    and 2: "add_epsilon_last s1 (length s1) = Inr s2"
    and t: "tbl = s2 @ [empty_state]"
    by (auto simp: plus_nfa_def Let_def split: sum.splits)
  from good_add_epsilon_last(1)[OF 1 assms(1)] have "list_all good s1" .
  from good_add_epsilon_last(1)[OF 2 this] have "list_all good s2" .
  then show ?thesis unfolding t by (simp add: table_inv_def good_empty_state)
qed

lemma inv_emitter:
  assumes "list_all good nfa" "emitter nfa rule = Inr tbl"
  shows "table_inv tbl"
proof -
  from assms(2) obtain s1 where
    1: "add_epsilon_last nfa (length nfa) = Inr s1"
    and t: "tbl = s1 @ [\<lparr>eps = None, emit = Some rule, edges = []\<rparr>]"
    by (auto simp: emitter_def Let_def split: sum.splits)
  from good_add_epsilon_last(1)[OF 1 assms(1)] have "list_all good s1" .
  then show ?thesis unfolding t
    by (simp add: table_inv_def terminal_def) (simp add: good_def exclusive_def)
qed

lemma inv_concat_step:
  assumes "list_all good tbl" "table_inv nxt" "concat_step tbl nxt = Inr tbl'"
  shows "table_inv tbl'"
proof -
  from assms(3) obtain s1 where
    1: "add_epsilon_last tbl (length tbl) = Inr s1"
    and t: "tbl' = s1 @ shift_table (length tbl) nxt"
    by (auto simp: concat_step_def Let_def split: sum.splits)
  from good_add_epsilon_last(1)[OF 1 assms(1)] have g: "list_all good s1" .
  from assms(2) have n: "nxt \<noteq> []" "terminal (last nxt)" "list_all good nxt"
    by (auto simp: table_inv_def)
  from n(1) have "last (shift_table (length tbl) nxt) = shift_state (length tbl) (last nxt)"
    by (simp add: shift_table_def last_map)
  with n g show ?thesis unfolding t
    by (simp add: table_inv_def good_shift_table terminal_shift_state)
qed

lemma inv_concat_loop:
  assumes "table_inv tbl" "\<forall>nfa\<in>set rest. table_inv nfa" "concat_loop tbl rest = Inr tbl'"
  shows "table_inv tbl'"
  using assms
proof (induction rest arbitrary: tbl)
  case Nil
  then show ?case by simp
next
  case (Cons nxt rest)
  from Cons.prems(3) obtain t1 where 1: "concat_step tbl nxt = Inr t1"
    and 2: "concat_loop t1 rest = Inr tbl'"
    by (auto split: sum.splits)
  from Cons.prems(1) have "list_all good tbl" by (simp add: table_inv_def)
  from inv_concat_step[OF this _ 1] Cons.prems(2) have "table_inv t1" by simp
  from Cons.IH[OF this _ 2] Cons.prems(2) show ?case by simp
qed

lemma inv_concat_nfas:
  assumes "\<forall>nfa\<in>set nfas. table_inv nfa" "concat_nfas nfas = Inr tbl"
  shows "table_inv tbl"
proof (cases nfas)
  case Nil
  with assms(2) show ?thesis by (auto simp: concat_nfas_def table_inv_def good_empty_state)
next
  case (Cons first rest)
  with assms inv_concat_loop[of first rest tbl] show ?thesis
    by (simp add: concat_nfas_def)
qed


lemma good_add_epsilon_at:
  assumes "add_epsilon_at tbl j i = Inr tbl'" "list_all good tbl"
  shows "list_all good tbl'" "length tbl' = length tbl" "\<And>k. k \<noteq> j \<Longrightarrow> tbl' ! k = tbl ! k"
proof -
  from add_epsilon_at_Inr[OF assms(1)] obtain st'
    where j: "j < length tbl" and st: "add_epsilon (tbl ! j) i = Inr st'" and t: "tbl' = tbl[j := st']"
    by auto
  from assms(2) good_add_epsilon[OF st] show "list_all good tbl'"
    unfolding t list_all_iff by (auto dest: set_update_subset_insert[THEN subsetD])
  from t show "length tbl' = length tbl" by simp
  from t show "\<And>k. k \<noteq> j \<Longrightarrow> tbl' ! k = tbl ! k" by simp
qed

lemma good_add_ends:
  assumes "add_ends tbl ends new_end = Inr tbl'" "list_all good tbl"
  shows "list_all good tbl' \<and> length tbl' = length tbl
     \<and> (\<forall>k. k \<notin> set ends \<longrightarrow> tbl' ! k = tbl ! k)"
  using assms
proof (induction ends arbitrary: tbl)
  case Nil
  then show ?case by simp
next
  case (Cons e es)
  from Cons.prems(1) obtain t1 where 1: "add_epsilon_at tbl e new_end = Inr t1"
    and 2: "add_ends t1 es new_end = Inr tbl'"
    by (auto split: sum.splits)
  note g = good_add_epsilon_at[OF 1 Cons.prems(2)]
  from Cons.IH[OF 2 g(1)] g(2,3) show ?case by auto
qed

lemma good_append_eps: "edges st = [] \<Longrightarrow> good (append_eps st i)"
  by (simp add: good_def exclusive_def append_eps_def)

lemma union_acc_step:
  assumes "union_acc acc" "list_all good nfa"
  shows "union_acc (union_step acc nfa)"
proof -
  obtain tbl ends where acc: "acc = (tbl, ends)" by (cases acc)
  from assms(1) acc have ne: "tbl \<noteq> []" and e0: "edges (tbl ! 0) = []"
    and g: "list_all good tbl" and en: "\<forall>e\<in>set ends. e < length tbl"
    by (auto simp: union_acc_def)
  let ?t1 = "tbl[0 := append_eps (tbl ! 0) (length tbl)]"
  have g1: "list_all good ?t1"
    using g good_append_eps[OF e0] unfolding list_all_iff
    by (auto dest: set_update_subset_insert[THEN subsetD])
  have n1: "?t1 \<noteq> []" using ne by simp
  have e1: "edges ((?t1 @ shift_table (length tbl) nfa) ! 0) = []"
    using ne e0 by (simp add: nth_append append_eps_def)
  show ?thesis
    unfolding acc union_step_def Let_def union_acc_def
    using g1 n1 e1 en good_shift_table[OF assms(2)] ne
    by (auto simp: less_Suc_eq_le)
qed

lemma union_acc_foldl:
  assumes "union_acc acc" "\<forall>nfa\<in>set nfas. list_all good nfa"
  shows "union_acc (foldl union_step acc nfas)"
  using assms by (induction nfas arbitrary: acc) (auto simp: union_acc_step)

lemma inv_union:
  assumes "\<forall>nfa\<in>set nfas. table_inv nfa" "union_nfas nfas = Inr tbl"
  shows "table_inv tbl"
proof -
  consider "nfas = []" | "length nfas = 1" | "nfas \<noteq> []" "length nfas \<noteq> 1" by blast
  then show ?thesis
  proof cases
    case 1
    with assms(2) show ?thesis by (auto simp: union_nfas_def table_inv_def good_empty_state)
  next
    case 2
    then obtain nfa where "nfas = [nfa]" by (cases nfas) auto
    with assms show ?thesis by (simp add: union_nfas_def)
  next
    case 3
    define acc where "acc = foldl union_step ([\<lparr>eps = Some [], emit = None, edges = []\<rparr>], []) nfas"
    have "union_acc ([\<lparr>eps = Some [], emit = None, edges = []\<rparr>], [])"
      by (simp add: union_acc_def good_def exclusive_def)
    moreover from assms(1) have "\<forall>nfa\<in>set nfas. list_all good nfa" by (simp add: table_inv_def)
    ultimately have a: "union_acc acc" unfolding acc_def by (rule union_acc_foldl)
    from assms(2) 3 have r: "add_ends (fst acc @ [empty_state]) (snd acc) (length (fst acc)) = Inr tbl"
      by (simp add: union_nfas_def Let_def acc_def)
    from a have "list_all good (fst acc @ [empty_state])"
      by (simp add: union_acc_def good_empty_state)
    from good_add_ends[OF r this]
    have gt: "list_all good tbl" and len: "length tbl = Suc (length (fst acc))"
      and same: "\<And>k. k \<notin> set (snd acc) \<Longrightarrow> tbl ! k = (fst acc @ [empty_state]) ! k"
      by auto
    from a have "length (fst acc) \<notin> set (snd acc)" by (auto simp: union_acc_def)
    from same[OF this] have "tbl ! length (fst acc) = empty_state" by simp
    with len have "last tbl = empty_state"
      by (metis diff_Suc_1 last_conv_nth length_0_conv nat.distinct(1))
    with gt len show ?thesis by (auto simp: table_inv_def good_empty_state)
  qed
qed

lemma inv_match_on: "v = Lit w \<or> v = ANY \<Longrightarrow> table_inv (match_on v)"
  by (auto simp: table_inv_def match_on_def good_def exclusive_def empty_state_def terminal_def)

lemma built_inv: "built tbl \<Longrightarrow> table_inv tbl"
proof (induction rule: built.induct)
  case (built_match_on_word w)
  then show ?case by (simp add: inv_match_on)
next
  case built_match_on_any
  then show ?case by (simp add: inv_match_on)
next
  case (built_concat nfas tbl)
  then show ?case using inv_concat_nfas by blast
next
  case (built_union nfas tbl)
  then show ?case using inv_union by blast
next
  case (built_star nfa tbl)
  then show ?case using inv_star by (auto simp: table_inv_def)
next
  case (built_plus nfa tbl)
  then show ?case using inv_plus by (auto simp: table_inv_def)
next
  case (built_optional nfa tbl)
  then show ?case using inv_optional by (auto simp: table_inv_def)
next
  case (built_emitter nfa rule tbl)
  then show ?case using inv_emitter by (auto simp: table_inv_def)
qed

text \<open>
  Claim C5. Every table produced by a build operation (\<^verbatim>\<open>match_on\<close>, \<^verbatim>\<open>concat\<close>,
  \<^verbatim>\<open>union\<close>, \<^verbatim>\<open>star\<close>, \<^verbatim>\<open>plus\<close>, \<^verbatim>\<open>optional\<close>, \<^verbatim>\<open>emitter\<close>, applied to tables that were
  themselves built) is not empty, so state 0 and the last state exist; its last state has
  no outgoing edge and is the only state that accepts the end of the input; and none of
  its states has both a consuming edge and an epsilon list.
\<close>

theorem built_tables_well_formed:
  assumes "built tbl"
  shows "well_formed tbl"
  using assms by (simp add: built_inv inv_well_formed)

theorem built_tables_well_formed_witness:
  "built (variable_table [''ITEM'']) \<and> well_formed (variable_table [''ITEM''])"
proof -
  have "plus_nfa (match_on ANY) = Inr
     [\<lparr>eps = None, emit = None, edges = [(ANY, 1)]\<rparr>,
      \<lparr>eps = Some [0, 2], emit = None, edges = []\<rparr>,
      \<lparr>eps = None, emit = None, edges = []\<rparr>]"
    by (simp add: builder_defs)
  from built_plus[OF built_match_on_any this]
  have "built (variable_table [''ITEM''])"
    by (rule built_emitter[where rule = "Variable [''ITEM'']"])
      (simp add: builder_defs variable_table_def)
  with built_tables_well_formed [of "variable_table [''ITEM'']"] show ?thesis by simp
qed

section \<open>Emitted rules along an epsilon path\<close>

lemma collect_Inr_set:
  assumes "collect (map f xs) = Inr ys" "y \<in> set ys"
  shows "\<exists>x\<in>set xs. \<exists>zs. f x = Inr zs \<and> y \<in> set zs"
proof -
  from assms(1) obtain xss where x: "map f xs = map Inr xss" "ys = concat xss"
    by (auto simp: collect_Inr_iff)
  with assms(2) obtain zs where zs: "zs \<in> set xss" "y \<in> set zs" by auto
  from map_eq_map_right[OF x(1) zs(1)] zs(2) show ?thesis by auto
qed

lemma collect_Inr_all:
  assumes "collect (map f xs) = Inr ys" "x \<in> set xs"
  shows "\<exists>zs. f x = Inr zs \<and> set zs \<subseteq> set ys"
proof -
  from assms(1) obtain xss where x: "map f xs = map Inr xss" "ys = concat xss"
    by (auto simp: collect_Inr_iff)
  from map_eq_map_left[OF x(1) assms(2)] x(2) show ?thesis by auto
qed

lemma collect_Inl:
  assumes "collect (map f xs) = Inl e"
  shows "\<exists>x\<in>set xs. f x = Inl e"
  using assms
  by (induction xs) (auto simp: collect_def split: sum.splits)

text \<open>run-time consequences of emit safety\<close>

lemma emit_safe_state:
  assumes "emit_safe tbl S" "i < length tbl"
  shows "state_ok S (tbl ! i) i"
proof -
  from assms have "state_ok S (tbl ! i) (0 + i)"
    unfolding emit_safe_def frag_ok_def by blast
  then show ?thesis by simp
qed

lemma emit_safe_succs:
  assumes "emit_safe tbl S" "i < length tbl" "i \<in> S \<or> emit (tbl ! i) \<noteq> None"
    and "eps (tbl ! i) = Some ns"
  shows "set ns \<subseteq> S"
  using emit_safe_state[OF assms(1,2)] assms(3,4)
  unfolding state_ok_def eps_list_def by auto

lemma emit_safe_no_emit:
  assumes "emit_safe tbl S" "i \<in> S"
  shows "i < length tbl" "emit (tbl ! i) = None"
proof -
  from assms show i: "i < length tbl" by (auto simp: emit_safe_def)
  from emit_safe_state[OF assms(1) i] assms(2) show "emit (tbl ! i) = None"
    by (simp add: state_ok_def)
qed

lemma trans_emit_keeps_emits:
  assumes "emit_safe tbl S"
  shows "i \<in> S \<Longrightarrow> trans_emit d tbl i tok ems = Inr ys \<Longrightarrow> y \<in> set ys \<Longrightarrow> fst y = ems"
proof (induction d arbitrary: i ys)
  case 0
  then show ?case by simp
next
  case (Suc d)
  note i = emit_safe_no_emit(1)[OF assms Suc.prems(1)]
    and e = emit_safe_no_emit(2)[OF assms Suc.prems(1)]
  show ?case
  proof (cases "eps (tbl ! i)")
    case None
    with Suc.prems i e show ?thesis by (auto simp: Let_def)
  next
    case (Some ns)
    with Suc.prems(2) i e have "collect (map (\<lambda>n. trans_emit d tbl n tok ems) ns) = Inr ys"
      by (simp add: Let_def)
    from collect_Inr_set[OF this Suc.prems(3)] obtain n zs
      where "n \<in> set ns" "trans_emit d tbl n tok ems = Inr zs" "y \<in> set zs" by auto
    moreover from emit_safe_succs[OF assms i _ Some] Suc.prems(1) have "set ns \<subseteq> S" by simp
    ultimately show ?thesis using Suc.IH by blast
  qed
qed

lemma trans_emit_one_emit:
  assumes "emit_safe tbl S"
  shows "trans_emit d tbl i tok [] = Inr ys \<Longrightarrow> y \<in> set ys \<Longrightarrow> length (fst y) \<le> 1"
proof (induction d arbitrary: i ys)
  case 0
  then show ?case by simp
next
  case (Suc d)
  from Suc.prems(1) have i: "i < length tbl" by (auto split: if_splits)
  show ?case
  proof (cases "eps (tbl ! i)")
    case None
    with Suc.prems i show ?thesis by (auto simp: Let_def split: option.splits)
  next
    case (Some ns)
    show ?thesis
    proof (cases "emit (tbl ! i)")
      case None
      with \<open>eps (tbl ! i) = Some ns\<close> Suc.prems(1) i have "collect (map (\<lambda>n. trans_emit d tbl n tok []) ns) = Inr ys"
        by (simp add: Let_def)
      from collect_Inr_set[OF this Suc.prems(2)] Suc.IH show ?thesis by blast
    next
      case (Some r)
      with \<open>eps (tbl ! i) = Some ns\<close> Suc.prems(1) i have "collect (map (\<lambda>n. trans_emit d tbl n tok [r]) ns) = Inr ys"
        by (simp add: Let_def)
      from collect_Inr_set[OF this Suc.prems(2)] obtain n zs
        where n: "n \<in> set ns" "trans_emit d tbl n tok [r] = Inr zs" "y \<in> set zs" by auto
      from emit_safe_succs[OF assms i _ \<open>eps (tbl ! i) = Some ns\<close>] Some
      have "set ns \<subseteq> S" by simp
      with n trans_emit_keeps_emits[OF assms, of n d tok "[r]" zs y] show ?thesis by auto
    qed
  qed
qed

section \<open>\<^verbatim>\<open>matches\<close> and \<^verbatim>\<open>annotate\<close> visit the same states\<close>

lemma map_result_simps [simp]:
  "map_result g (Inl e) = Inl e" "map_result g (Inr x) = Inr (g x)"
  by (simp_all add: map_result_def)

lemma map_result_eq_Inr: "map_result g r = Inr y \<longleftrightarrow> (\<exists>x. r = Inr x \<and> y = g x)"
  by (cases r) auto

lemma map_result_eq_Inl: "map_result g r = Inl e \<longleftrightarrow> r = Inl e"
  by (cases r) auto

lemma sequence_map_result:
  "sequence (map (\<lambda>x. map_result g (f x)) xs) = map_result (map g) (sequence (map f xs))"
  by (induction xs) (auto split: sum.splits)

lemma collect_map_result:
  "collect (map (\<lambda>x. map_result (map h) (f x)) xs) = map_result (map h) (collect (map f xs))"
  unfolding collect_def sequence_map_result
  by (cases "sequence (map f xs)") (simp_all add: map_concat)

lemma trans_emit_transition:
  "transition d tbl i tok = map_result (map snd) (trans_emit d tbl i tok ems)"
proof (induction d arbitrary: i ems)
  case 0
  then show ?case by simp
next
  case (Suc d)
  show ?case
  proof (cases "i < length tbl")
    case False
    then show ?thesis by simp
  next
    case True
    define ems' where "ems' = (case emit (tbl ! i) of Some rule \<Rightarrow> ems @ [rule] | None \<Rightarrow> ems)"
    show ?thesis
    proof (cases "eps (tbl ! i)")
      case None
      with True show ?thesis by (simp add: Let_def comp_def)
    next
      case (Some ns)
      have "collect (map (\<lambda>n. transition d tbl n tok) ns)
          = map_result (map snd) (collect (map (\<lambda>n. trans_emit d tbl n tok ems') ns))"
        unfolding collect_map_result[symmetric] Suc.IH[symmetric] ..
      with True Some show ?thesis by (simp add: Let_def ems'_def)
    qed
  qed
qed

lemma transition_errors:
  "transition d tbl i tok = Inl e \<Longrightarrow> e = RecursionError \<or> e = IndexError"
proof (induction d arbitrary: i)
  case 0
  then show ?case by simp
next
  case (Suc d)
  show ?case
  proof (cases "i < length tbl \<and> eps (tbl ! i) \<noteq> None")
    case False
    with Suc.prems show ?thesis by (auto split: if_splits option.splits)
  next
    case True
    then obtain ns where "eps (tbl ! i) = Some ns" by auto
    with True Suc.prems have "collect (map (\<lambda>n. transition d tbl n tok) ns) = Inl e" by simp
    from collect_Inl[OF this] Suc.IH show ?thesis by blast
  qed
qed

lemma push_path_one_emit:
  assumes "length (fst y) \<le> 1"
  shows "\<exists>stack'. push_path stack tok y = Inr (snd y, stack')"
proof (cases "fst y")
  case Nil
  then show ?thesis by (simp add: push_path_def)
next
  case (Cons r rs)
  with assms have "rs = []" by simp
  with Cons show ?thesis by (simp add: push_path_def)
qed

lemma sequence_map_push_path:
  assumes "\<And>y. y \<in> set ys \<Longrightarrow> length (fst y) \<le> 1"
  shows "\<exists>qs. sequence (map (push_path stack tok) ys) = Inr qs \<and> map fst qs = map snd ys"
  using assms
proof (induction ys)
  case Nil
  then show ?case by simp
next
  case (Cons y ys)
  from push_path_one_emit[of y stack tok] Cons.prems obtain stack'
    where "push_path stack tok y = Inr (snd y, stack')" by auto
  moreover from Cons obtain qs
    where "sequence (map (push_path stack tok) ys) = Inr qs" "map fst qs = map snd ys" by auto
  ultimately show ?case by simp
qed

lemma advance_path_states:
  assumes "emit_safe tbl S"
  shows "transition d tbl (fst p) tok = map_result (map fst) (advance_path d tbl tok p)"
proof (cases "trans_emit d tbl (fst p) tok []")
  case (Inl e)
  with trans_emit_transition[of d tbl "fst p" tok "[]"] show ?thesis
    by (simp add: advance_path_def)
next
  case (Inr ys)
  from sequence_map_push_path[of ys "snd p" tok] trans_emit_one_emit[OF assms Inr]
  obtain qs where "sequence (map (push_path (snd p) tok) ys) = Inr qs" "map fst qs = map snd ys"
    by blast
  with Inr trans_emit_transition[of d tbl "fst p" tok "[]"] show ?thesis
    by (simp add: advance_path_def)
qed

text \<open>The two simulations visit the same states.\<close>

lemma collect_same_states:
  assumes "emit_safe tbl S" "set states = fst ` set paths"
  shows "(\<forall>qs. collect (map (advance_path d tbl tok) paths) = Inr qs \<longrightarrow>
            (\<exists>ns. collect (map (\<lambda>s. transition d tbl s tok) states) = Inr ns
                 \<and> set ns = fst ` set qs))
       \<and> (\<forall>e. collect (map (advance_path d tbl tok) paths) = Inl e \<longrightarrow>
            (e = RecursionError \<or> e = IndexError)
            \<and> (\<exists>e'. collect (map (\<lambda>s. transition d tbl s tok) states) = Inl e'))"
proof (intro conjI allI impI)
  fix qs
  assume c: "collect (map (advance_path d tbl tok) paths) = Inr qs"
  have ok: "\<exists>zs. transition d tbl s tok = Inr zs" if "s \<in> set states" for s
  proof -
    from that assms(2) obtain p where p: "p \<in> set paths" "s = fst p" by auto
    from collect_Inr_all[OF c p(1)] obtain zs where "advance_path d tbl tok p = Inr zs" by auto
    with advance_path_states[OF assms(1), where d=d and tok=tok and p=p] p(2) show ?thesis by auto
  qed
  from collect_all_Inr[of states "\<lambda>s. transition d tbl s tok", OF ok]
  obtain ns where ns: "collect (map (\<lambda>s. transition d tbl s tok) states) = Inr ns" by auto
  have "set ns = fst ` set qs"
  proof (intro set_eqI iffI)
    fix n
    assume "n \<in> set ns"
    from collect_Inr_set[OF ns this] obtain s zs
      where s: "s \<in> set states" "transition d tbl s tok = Inr zs" "n \<in> set zs" by auto
    from s(1) assms(2) obtain p where p: "p \<in> set paths" "s = fst p" by auto
    from collect_Inr_all[OF c p(1)] obtain ws
      where ws: "advance_path d tbl tok p = Inr ws" "set ws \<subseteq> set qs" by auto
    with advance_path_states[OF assms(1), where d=d and tok=tok and p=p] p(2) s(2) have "zs = map fst ws" by auto
    with s(3) ws(2) show "n \<in> fst ` set qs" by auto
  next
    fix n
    assume "n \<in> fst ` set qs"
    then obtain q where q: "q \<in> set qs" "n = fst q" by auto
    from collect_Inr_set[OF c q(1)] obtain p ws
      where p: "p \<in> set paths" "advance_path d tbl tok p = Inr ws" "q \<in> set ws" by auto
    from p(1) assms(2) have s: "fst p \<in> set states" by auto
    from advance_path_states[OF assms(1), where d=d and tok=tok and p=p] p(2)
    have t: "transition d tbl (fst p) tok = Inr (map fst ws)" by auto
    from collect_Inr_all[OF ns s] t have "set (map fst ws) \<subseteq> set ns" by auto
    with p(3) q(2) show "n \<in> set ns" by auto
  qed
  with ns show "\<exists>ns. collect (map (\<lambda>s. transition d tbl s tok) states) = Inr ns
      \<and> set ns = fst ` set qs" by blast
next
  fix e
  assume c: "collect (map (advance_path d tbl tok) paths) = Inl e"
  from collect_Inl[OF c] obtain p where p: "p \<in> set paths" "advance_path d tbl tok p = Inl e"
    by auto
  with advance_path_states[OF assms(1), where d=d and tok=tok and p=p]
  have t: "transition d tbl (fst p) tok = Inl e" by auto
  from transition_errors[OF t] show "e = RecursionError \<or> e = IndexError" .
  from p(1) assms(2) have s: "fst p \<in> set states" by auto
  show "\<exists>e'. collect (map (\<lambda>s. transition d tbl s tok) states) = Inl e'"
  proof (cases "collect (map (\<lambda>s. transition d tbl s tok) states)")
    case (Inl e')
    then show ?thesis by blast
  next
    case (Inr ns)
    from collect_Inr_all[OF Inr s] t show ?thesis by auto
  qed
qed

lemma sequence_all_Inr:
  assumes "\<And>x. x \<in> set xs \<Longrightarrow> \<exists>y. f x = Inr y"
  shows "\<exists>ys. sequence (map f xs) = Inr ys"
  using assms
proof (induction xs)
  case Nil
  then show ?case by simp
next
  case (Cons x xs)
  from Cons.prems[of x] obtain y where y: "f x = Inr y" by auto
  from Cons.IH Cons.prems obtain ys where "sequence (map f xs) = Inr ys" by auto
  with y show ?case by auto
qed

lemma failure_ok:
  assumes "advance_path d tbl tok p = Inr ws"
  shows "\<exists>f. failure d tbl tok p = Inr f"
proof -
  from assms obtain ys where "trans_emit d tbl (fst p) tok [] = Inr ys"
    by (auto simp: advance_path_def split: sum.splits)
  from trans_emit_expected[OF this] show ?thesis by (auto simp: failure_def)
qed

lemma annotate_step_nonempty: "annotate_step d tbl paths tok = Inr qs \<Longrightarrow> qs \<noteq> []"
  by (auto simp: annotate_step_def split: sum.splits if_splits)

lemma steps_agree:
  assumes "emit_safe tbl S" "set states = fst ` set paths"
  shows "agree (annotate_step d tbl paths tok) (matches_step d tbl states tok)"
proof (cases "collect (map (advance_path d tbl tok) paths)")
  case (Inl e)
  with collect_same_states[OF assms, of d tok]
  have "e = RecursionError \<or> e = IndexError"
    and "\<exists>e'. collect (map (\<lambda>s. transition d tbl s tok) states) = Inl e'" by auto
  with Inl show ?thesis by (auto simp: agree_def annotate_step_def matches_step_def)
next
  case (Inr qs)
  with collect_same_states[OF assms, of d tok] obtain ns
    where ns: "collect (map (\<lambda>s. transition d tbl s tok) states) = Inr ns" "set ns = fst ` set qs"
    by auto
  show ?thesis
  proof (cases "qs = []")
    case True
    have "\<exists>f. failure d tbl tok p = Inr f" if "p \<in> set paths" for p
      using collect_Inr_all[OF Inr that] failure_ok by blast
    from sequence_all_Inr[of paths "failure d tbl tok", OF this] obtain fs
      where "sequence (map (failure d tbl tok) paths) = Inr fs" by auto
    with Inr True ns show ?thesis
      by (simp add: agree_def annotate_step_def matches_step_def)
  next
    case False
    with Inr ns show ?thesis
      by (simp add: agree_def annotate_step_def matches_step_def)
  qed
qed

lemma matches_loop_dead: "matches_loop d tbl [] toks = Inr []"
  by (induction toks) (simp_all add: matches_step_def collect_def)

lemma loops_agree:
  assumes "emit_safe tbl S"
  shows "set states = fst ` set paths \<Longrightarrow>
    agree (annotate_loop d tbl paths toks) (matches_loop d tbl states toks)"
proof (induction toks arbitrary: states paths)
  case Nil
  then show ?case by (simp add: agree_def)
next
  case (Cons tok toks)
  note st = steps_agree[OF assms Cons.prems, of d tok]
  show ?case
  proof (cases "annotate_step d tbl paths tok")
    case (Inl e)
    with st show ?thesis by (auto simp: agree_def matches_loop_dead)
  next
    case (Inr qs)
    with st obtain ns where ns: "matches_step d tbl states tok = Inr ns" "set ns = fst ` set qs"
      by (auto simp: agree_def)
    from Cons.IH[OF ns(2)] Inr ns(1) show ?thesis by simp
  qed
qed

lemma matches_loop_append:
  "matches_loop d tbl states (xs @ ys) =
     (case matches_loop d tbl states xs of Inl e \<Rightarrow> Inl e | Inr ns \<Rightarrow> matches_loop d tbl ns ys)"
  by (induction xs arbitrary: states) (auto split: sum.splits)

lemma transition_END_last:
  assumes "list_all good tbl"
  shows "transition d tbl i END = Inr ns \<Longrightarrow> n \<in> set ns \<Longrightarrow> n = length tbl - 1"
proof (induction d arbitrary: i ns)
  case 0
  then show ?case by simp
next
  case (Suc d)
  from Suc.prems(1) have i: "i < length tbl" by (auto split: if_splits)
  show ?case
  proof (cases "eps (tbl ! i)")
    case None
    from assms i have "map_of (edges (tbl ! i)) END = None"
      by (auto simp: list_all_length good_def)
    with None Suc.prems i show ?thesis by (auto simp: consume_def Let_def split: if_splits)
  next
    case (Some nexts)
    with Suc.prems(1) i have "collect (map (\<lambda>s. transition d tbl s END) nexts) = Inr ns" by simp
    from collect_Inr_set[OF this Suc.prems(2)] Suc.IH show ?thesis by blast
  qed
qed

lemma matches_step_END_last:
  assumes "list_all good tbl" "matches_step d tbl states END = Inr ns" "n \<in> set ns"
  shows "n = length tbl - 1"
proof -
  from assms(2) obtain ms where ms: "collect (map (\<lambda>s. transition d tbl s END) states) = Inr ms"
    "ns = remdups ms" by (auto simp: matches_step_def split: sum.splits)
  with assms(3) have "n \<in> set ms" by simp
  from collect_Inr_set[OF ms(1) this] transition_END_last[OF assms(1)] show ?thesis by blast
qed

text \<open>
  On a table that emits at most one rule between two tokens and has no edge labelled
  \<^verbatim>\<open>Token.END\<close>, the two execution modes agree.
\<close>

lemma table_matches_iff_annotate:
  assumes "emit_safe tbl S" "list_all good tbl"
  shows "(matches d tbl toks = Inr True \<longleftrightarrow> (\<exists>stacks. annotate d tbl toks = Inr stacks \<and> stacks \<noteq> []))
    \<and> (matches d tbl toks = Inr False \<longleftrightarrow> (\<exists>fs. annotate d tbl toks = Inl (ParseError fs)))
    \<and> annotate d tbl toks \<noteq> Inr []"
proof -
  let ?toks = "map Lit toks @ [END]"
  have ne: "tbl \<noteq> []" using assms(1) by (auto simp: emit_safe_def)
  have ag: "agree (annotate_loop d tbl [(0, [])] ?toks) (matches_loop d tbl [0] ?toks)"
    by (rule loops_agree[OF assms(1)]) simp
  show ?thesis
  proof (cases "annotate_loop d tbl [(0, [])] ?toks")
    case (Inl e)
    with ag show ?thesis by (auto simp: agree_def annotate_def matches_def)
  next
    case (Inr qs)
    with ag obtain ns where ns: "matches_loop d tbl [0] ?toks = Inr ns" "set ns = fst ` set qs"
      by (auto simp: agree_def)
    from Inr obtain ps where "annotate_step d tbl ps END = Inr qs"
      by (auto simp: annotate_loop_append split: sum.splits)
    from annotate_step_nonempty[OF this] have q: "qs \<noteq> []" .
    from ns(1) obtain ms where "matches_step d tbl ms END = Inr ns"
      by (auto simp: matches_loop_append split: sum.splits)
    from matches_step_END_last[OF assms(2) this] have "\<forall>n\<in>set ns. n = length tbl - 1" by blast
    moreover from q ns(2) obtain n where "n \<in> set ns" by (cases qs) auto
    ultimately have "length tbl - 1 \<in> set ns" by metis
    with Inr ns(1) q ne show ?thesis by (simp add: annotate_def matches_def)
  qed
qed

section \<open>Every compiled table emits at most one rule between two tokens\<close>

lemma state_ok_embed:
  assumes "state_ok S0 st i" "emit st' = emit st"
    and "set (eps_list st') \<subseteq> (\<lambda>j. j + k) ` set (eps_list st) \<union> S"
    and "k + i \<in> S \<Longrightarrow> i \<in> S0" "(\<lambda>j. j + k) ` S0 \<subseteq> S"
  shows "state_ok S st' (k + i)"
  using assms unfolding state_ok_def by (auto; blast)

lemma frag_ok_append:
  "frag_ok S k (a @ b) \<longleftrightarrow> frag_ok S k a \<and> frag_ok S (k + length a) b"
proof
  assume f: "frag_ok S k (a @ b)"
  have "state_ok S (a ! i) (k + i)" if "i < length a" for i
    using f[unfolded frag_ok_def, rule_format, of i] that by (simp add: nth_append)
  moreover have "state_ok S (b ! i) (k + length a + i)" if "i < length b" for i
    using f[unfolded frag_ok_def, rule_format, of "length a + i"] that
    by (simp add: nth_append add.assoc)
  ultimately show "frag_ok S k a \<and> frag_ok S (k + length a) b" by (simp add: frag_ok_def)
next
  assume f: "frag_ok S k a \<and> frag_ok S (k + length a) b"
  show "frag_ok S k (a @ b)"
    unfolding frag_ok_def
  proof (intro allI impI)
    fix i assume i: "i < length (a @ b)"
    show "state_ok S ((a @ b) ! i) (k + i)"
    proof (cases "i < length a")
      case True
      with f show ?thesis by (simp add: frag_ok_def nth_append)
    next
      case False
      with i have "i - length a < length b" by simp
      with f have "state_ok S (b ! (i - length a)) (k + length a + (i - length a))"
        by (simp add: frag_ok_def)
      with False show ?thesis by (simp add: nth_append)
    qed
  qed
qed

lemma frag_ok_single [simp]: "frag_ok S k [st] \<longleftrightarrow> state_ok S st k"
  by (simp add: frag_ok_def)

lemma frag_ok_Nil [simp]: "frag_ok S k []"
  by (simp add: frag_ok_def)

lemma frag_ok_Cons: "frag_ok S k (st # t) \<longleftrightarrow> state_ok S st k \<and> frag_ok S (Suc k) t"
  using frag_ok_append[of S k "[st]" t] by simp

lemma eps_list_shift_state [simp]:
  "eps_list (shift_state k st) = map (\<lambda>j. j + k) (eps_list st)"
  by (simp add: eps_list_def shift_state_def split: option.splits)

lemma emit_shift_state [simp]: "emit (shift_state k st) = emit st"
  by (simp add: shift_state_def)

lemma frag_ok_shift:
  assumes "frag_ok S0 0 t" "\<And>i. i < length t \<Longrightarrow> k + i \<in> S \<Longrightarrow> i \<in> S0"
    and "(\<lambda>j. j + k) ` S0 \<subseteq> S"
  shows "frag_ok S k (shift_table k t)"
  unfolding frag_ok_def
proof (intro allI impI)
  fix i assume "i < length (shift_table k t)"
  then have i: "i < length t" by simp
  with assms(1) have "state_ok S0 (t ! i) i" by (simp add: frag_ok_def)
  from state_ok_embed[OF this _ _ assms(2)[OF i] assms(3), of "shift_state k (t ! i)"]
  show "state_ok S (shift_table k t ! i) (k + i)" using i by (simp add: shift_table_def)
qed

lemma frag_ok_weaken:
  assumes "frag_ok S0 0 t" "\<And>i. i < length t \<Longrightarrow> i \<in> S \<Longrightarrow> i \<in> S0" "S0 \<subseteq> S"
  shows "frag_ok S 0 t"
  unfolding frag_ok_def
proof (intro allI impI)
  fix i assume i: "i < length t"
  with assms(1) have "state_ok S0 (t ! i) i" by (simp add: frag_ok_def)
  from state_ok_embed[OF this, of "t ! i" 0 S] assms(2)[OF i] assms(3)
  show "state_ok S (t ! i) (0 + i)" by auto
qed

lemma state_ok_add_epsilon:
  assumes "state_ok S st i" "add_epsilon st j = Inr st'" "j \<in> S"
  shows "state_ok S st' i"
  using assms add_epsilon_Inr[OF assms(2)]
  unfolding state_ok_def eps_list_def by (auto split: option.splits)

lemma frag_ok_update:
  assumes "frag_ok S k t" "state_ok S st' (k + m)"
  shows "frag_ok S k (t[m := st'])"
proof (cases "m < length t")
  case True
  with assms show ?thesis unfolding frag_ok_def by (auto simp: nth_list_update)
next
  case False
  then have "t[m := st'] = t" by (simp add: list_update_beyond)
  with assms(1) show ?thesis by simp
qed

lemma frag_ok_add_epsilon_at:
  assumes "frag_ok S k t" "add_epsilon_at t m j = Inr t'" "j \<in> S"
  shows "frag_ok S k t'"
proof -
  from add_epsilon_at_Inr[OF assms(2)] obtain st'
    where m: "m < length t" and st: "add_epsilon (t ! m) j = Inr st'" and t: "t' = t[m := st']"
    by auto
  from assms(1) m have "state_ok S (t ! m) (k + m)" by (simp add: frag_ok_def)
  from state_ok_add_epsilon[OF this st assms(3)] assms(1) show ?thesis
    unfolding t by (rule frag_ok_update[rotated])
qed

lemma frag_ok_add_epsilon_last:
  assumes "frag_ok S k t" "add_epsilon_last t j = Inr t'" "j \<in> S"
  shows "frag_ok S k t'" "length t' = length t"
proof -
  from assms(2) have a: "add_epsilon_at t (length t - 1) j = Inr t'"
    by (auto simp: add_epsilon_last_def split: if_splits)
  from frag_ok_add_epsilon_at[OF assms(1) a assms(3)] show "frag_ok S k t'" .
  from add_epsilon_at_Inr[OF a] show "length t' = length t" by auto
qed

lemma state_ok_empty [simp]: "state_ok S empty_state i"
  by (simp add: state_ok_def empty_state_def eps_list_def)

lemma safe_star:
  assumes "safe nfa" "star nfa = Inr tbl"
  shows "safe tbl"
proof -
  from assms(1) obtain S where S: "S \<subseteq> {..<length nfa}" "0 \<in> S" "frag_ok S 0 nfa"
    by (auto simp: safe_def emit_safe_def)
  let ?n = "length nfa"
  from assms(2) obtain s1 s2 where
    1: "add_epsilon_last (shift_table 1 nfa) 0 = Inr s1"
    and 2: "add_epsilon_last s1 (length s1 + 1) = Inr s2"
    and t: "tbl = [\<lparr>eps = Some [1, length s2 + 1], emit = None, edges = []\<rparr>] @ s2 @ [empty_state]"
    by (auto simp: star_def Let_def split: sum.splits)
  define S' where "S' = insert 0 (insert (?n + 1) ((\<lambda>j. j + 1) ` S))"
  have f0: "frag_ok S' 1 (shift_table 1 nfa)"
    by (rule frag_ok_shift[OF S(3)]) (auto simp: S'_def)
  note f1 = frag_ok_add_epsilon_last[OF f0 1]
  have l1: "length s1 = ?n" using f1(2) by (simp add: S'_def)
  note f2 = frag_ok_add_epsilon_last[OF f1(1) 2]
  have l2: "length s2 = ?n" using f2(2) l1 by (simp add: S'_def)
  have "frag_ok S' 1 s2" using f2(1) l1 by (simp add: S'_def)
  moreover have "state_ok S' \<lparr>eps = Some [1, ?n + 1], emit = None, edges = []\<rparr> 0"
    using S(2) by (auto simp: state_ok_def eps_list_def S'_def)
  ultimately have "frag_ok S' 0 tbl"
    unfolding t by (simp add: frag_ok_append frag_ok_Cons l2)
  moreover have "S' \<subseteq> {..<length tbl}" using S(1) by (auto simp: S'_def t l2)
  moreover have "0 \<in> S'" by (simp add: S'_def)
  ultimately show ?thesis by (auto simp: safe_def emit_safe_def)
qed

lemma safe_optional:
  assumes "safe nfa" "optional nfa = Inr tbl"
  shows "safe tbl"
proof -
  from assms(1) obtain S where S: "S \<subseteq> {..<length nfa}" "0 \<in> S" "frag_ok S 0 nfa"
    by (auto simp: safe_def emit_safe_def)
  let ?n = "length nfa"
  from assms(2) obtain s1 where
    1: "add_epsilon_last (shift_table 1 nfa) (?n + 1) = Inr s1"
    and t: "tbl = [\<lparr>eps = Some [1, length s1 + 1], emit = None, edges = []\<rparr>] @ s1 @ [empty_state]"
    by (auto simp: optional_def Let_def split: sum.splits)
  define S' where "S' = insert 0 (insert (?n + 1) ((\<lambda>j. j + 1) ` S))"
  have f0: "frag_ok S' 1 (shift_table 1 nfa)"
    by (rule frag_ok_shift[OF S(3)]) (auto simp: S'_def)
  note f1 = frag_ok_add_epsilon_last[OF f0 1]
  have l1: "length s1 = ?n" using f1(2) by (simp add: S'_def)
  have "frag_ok S' 1 s1" using f1(1) by (simp add: S'_def)
  moreover have "state_ok S' \<lparr>eps = Some [1, ?n + 1], emit = None, edges = []\<rparr> 0"
    using S(2) by (auto simp: state_ok_def eps_list_def S'_def)
  ultimately have "frag_ok S' 0 tbl"
    unfolding t by (simp add: frag_ok_append frag_ok_Cons l1)
  moreover have "S' \<subseteq> {..<length tbl}" using S(1) by (auto simp: S'_def t l1)
  moreover have "0 \<in> S'" by (simp add: S'_def)
  ultimately show ?thesis by (auto simp: safe_def emit_safe_def)
qed

lemma safe_plus:
  assumes "safe nfa" "plus_nfa nfa = Inr tbl"
  shows "safe tbl"
proof -
  from assms(1) obtain S where S: "S \<subseteq> {..<length nfa}" "0 \<in> S" "frag_ok S 0 nfa"
    by (auto simp: safe_def emit_safe_def)
  let ?n = "length nfa"
  from assms(2) obtain s1 s2 where
    1: "add_epsilon_last nfa 0 = Inr s1"
    and 2: "add_epsilon_last s1 (length s1) = Inr s2"
    and t: "tbl = s2 @ [empty_state]"
    by (auto simp: plus_nfa_def Let_def split: sum.splits)
  define S' where "S' = insert ?n S"
  have f0: "frag_ok S' 0 nfa"
    by (rule frag_ok_weaken[OF S(3)]) (use S(1) in \<open>auto simp: S'_def\<close>)
  note f1 = frag_ok_add_epsilon_last[OF f0 1]
  have l1: "length s1 = ?n" using f1(2) S(2) by (simp add: S'_def)
  note f2 = frag_ok_add_epsilon_last[OF f1(1) 2]
  have l2: "length s2 = ?n" using f2(2) l1 S(2) by (simp add: S'_def)
  have "frag_ok S' 0 s2" using f2(1) l1 S(2) by (simp add: S'_def)
  then have "frag_ok S' 0 tbl"
    unfolding t by (simp add: frag_ok_append)
  moreover have "S' \<subseteq> {..<length tbl}" using S(1) by (auto simp: S'_def t l2)
  moreover have "0 \<in> S'" using S(2) by (simp add: S'_def)
  ultimately show ?thesis by (auto simp: safe_def emit_safe_def)
qed

lemma safe_concat_step:
  assumes "safe tbl" "safe nxt" "concat_step tbl nxt = Inr tbl'"
  shows "safe tbl'"
proof -
  from assms(1) obtain S1 where S1: "S1 \<subseteq> {..<length tbl}" "0 \<in> S1" "frag_ok S1 0 tbl"
    by (auto simp: safe_def emit_safe_def)
  from assms(2) obtain S2 where S2: "S2 \<subseteq> {..<length nxt}" "0 \<in> S2" "frag_ok S2 0 nxt"
    by (auto simp: safe_def emit_safe_def)
  let ?n = "length tbl"
  from assms(3) obtain s1 where
    1: "add_epsilon_last tbl ?n = Inr s1"
    and t: "tbl' = s1 @ shift_table ?n nxt"
    by (auto simp: concat_step_def Let_def split: sum.splits)
  define S' where "S' = S1 \<union> (\<lambda>j. j + ?n) ` S2"
  have n: "?n \<in> S'" using S2(2) by (auto simp: S'_def)
  have f0: "frag_ok S' 0 tbl"
    by (rule frag_ok_weaken[OF S1(3)]) (auto simp: S'_def)
  note f1 = frag_ok_add_epsilon_last[OF f0 1 n]
  have f2: "frag_ok S' ?n (shift_table ?n nxt)"
    by (rule frag_ok_shift[OF S2(3)]) (use S1(1) in \<open>auto simp: S'_def\<close>)
  from f1 f2 have "frag_ok S' 0 tbl'" unfolding t by (simp add: frag_ok_append)
  moreover have "S' \<subseteq> {..<length tbl'}" using S1(1) S2(1) f1(2) by (auto simp: S'_def t)
  moreover have "0 \<in> S'" using S1(2) by (simp add: S'_def)
  ultimately show ?thesis by (auto simp: safe_def emit_safe_def)
qed

lemma safe_concat_loop:
  assumes "safe tbl" "\<forall>nfa\<in>set rest. safe nfa" "concat_loop tbl rest = Inr tbl'"
  shows "safe tbl'"
  using assms
proof (induction rest arbitrary: tbl)
  case Nil
  then show ?case by simp
next
  case (Cons nxt rest)
  from Cons.prems(3) obtain t1 where 1: "concat_step tbl nxt = Inr t1"
    and 2: "concat_loop t1 rest = Inr tbl'"
    by (auto split: sum.splits)
  from safe_concat_step[OF Cons.prems(1) _ 1] Cons.prems(2) have "safe t1" by simp
  from Cons.IH[OF this _ 2] Cons.prems(2) show ?case by simp
qed

lemma safe_single: "safe [empty_state]"
  unfolding safe_def emit_safe_def by (rule exI[of _ "{0}"]) simp

lemma safe_concat_nfas:
  assumes "\<forall>nfa\<in>set nfas. safe nfa" "concat_nfas nfas = Inr tbl"
  shows "safe tbl"
proof (cases nfas)
  case Nil
  with assms(2) show ?thesis by (auto simp: concat_nfas_def safe_single)
next
  case (Cons first rest)
  with assms safe_concat_loop[of first rest tbl] show ?thesis
    by (simp add: concat_nfas_def)
qed

lemma state_ok_append_eps:
  assumes "state_ok S st i" "j \<in> S"
  shows "state_ok S (append_eps st j) i"
  using assms unfolding state_ok_def eps_list_def append_eps_def
  by (auto split: option.splits)

lemma safe_union_step:
  assumes "safe (fst acc)" "safe nfa"
  shows "safe (fst (union_step acc nfa))"
proof -
  obtain tbl ends where acc: "acc = (tbl, ends)" by (cases acc)
  from assms(1) acc obtain S1 where S1: "S1 \<subseteq> {..<length tbl}" "0 \<in> S1" "frag_ok S1 0 tbl"
    by (auto simp: safe_def emit_safe_def)
  from assms(2) obtain S2 where S2: "S2 \<subseteq> {..<length nfa}" "0 \<in> S2" "frag_ok S2 0 nfa"
    by (auto simp: safe_def emit_safe_def)
  let ?n = "length tbl"
  let ?t1 = "tbl[0 := append_eps (tbl ! 0) ?n]"
  define S' where "S' = S1 \<union> (\<lambda>j. j + ?n) ` S2"
  have n: "?n \<in> S'" using S2(2) by (auto simp: S'_def)
  have ne: "0 < ?n" using S1(1,2) by auto
  have f0: "frag_ok S' 0 tbl"
    by (rule frag_ok_weaken[OF S1(3)]) (auto simp: S'_def)
  with ne have "state_ok S' (tbl ! 0) (0 + 0)" unfolding frag_ok_def by blast
  then have "state_ok S' (append_eps (tbl ! 0) ?n) (0 + 0)"
    using n by (simp add: state_ok_append_eps)
  from frag_ok_update[OF f0 this] have f1: "frag_ok S' 0 ?t1" .
  have f2: "frag_ok S' ?n (shift_table ?n nfa)"
    by (rule frag_ok_shift[OF S2(3)]) (use S1(1) in \<open>auto simp: S'_def\<close>)
  from f1 f2 have "frag_ok S' 0 (?t1 @ shift_table ?n nfa)" by (simp add: frag_ok_append)
  moreover have "S' \<subseteq> {..<length (?t1 @ shift_table ?n nfa)}"
    using S1(1) S2(1) by (auto simp: S'_def)
  moreover have "0 \<in> S'" using S1(2) by (simp add: S'_def)
  ultimately show ?thesis
    unfolding acc union_step_def Let_def by (auto simp: safe_def emit_safe_def)
qed

lemma safe_union_foldl:
  assumes "safe (fst acc)" "\<forall>nfa\<in>set nfas. safe nfa"
  shows "safe (fst (foldl union_step acc nfas))"
  using assms by (induction nfas arbitrary: acc) (auto simp: safe_union_step)

lemma emit_safe_add_ends:
  assumes "add_ends tbl ends new_end = Inr tbl'" "emit_safe tbl S" "new_end \<in> S"
  shows "emit_safe tbl' S"
  using assms
proof (induction ends arbitrary: tbl)
  case Nil
  then show ?case by simp
next
  case (Cons e es)
  from Cons.prems(1) obtain t1 where 1: "add_epsilon_at tbl e new_end = Inr t1"
    and 2: "add_ends t1 es new_end = Inr tbl'"
    by (auto split: sum.splits)
  from Cons.prems(2) have "frag_ok S 0 tbl" by (simp add: emit_safe_def)
  from frag_ok_add_epsilon_at[OF this 1 Cons.prems(3)] add_epsilon_at_Inr[OF 1] Cons.prems(2)
  have "emit_safe t1 S" by (auto simp: emit_safe_def)
  from Cons.IH[OF 2 this Cons.prems(3)] show ?case .
qed

lemma safe_union:
  assumes "\<forall>nfa\<in>set nfas. safe nfa" "union_nfas nfas = Inr tbl"
  shows "safe tbl"
proof -
  consider "nfas = []" | "length nfas = 1" | "nfas \<noteq> []" "length nfas \<noteq> 1" by blast
  then show ?thesis
  proof cases
    case 1
    with assms(2) show ?thesis by (auto simp: union_nfas_def safe_single)
  next
    case 2
    then obtain nfa where "nfas = [nfa]" by (cases nfas) auto
    with assms show ?thesis by (simp add: union_nfas_def)
  next
    case 3
    define acc where "acc = foldl union_step ([\<lparr>eps = Some [], emit = None, edges = []\<rparr>], []) nfas"
    have "safe [\<lparr>eps = Some [], emit = None, edges = []\<rparr>]"
      unfolding safe_def emit_safe_def
      by (rule exI[of _ "{0}"]) (simp add: state_ok_def eps_list_def)
    with assms(1) have "safe (fst acc)"
      unfolding acc_def using safe_union_foldl[of "([\<lparr>eps = Some [], emit = None, edges = []\<rparr>], [])" nfas]
      by simp
    then obtain S where S: "S \<subseteq> {..<length (fst acc)}" "0 \<in> S" "frag_ok S 0 (fst acc)"
      by (auto simp: safe_def emit_safe_def)
    define S' where "S' = insert (length (fst acc)) S"
    have "frag_ok S' 0 (fst acc)"
      by (rule frag_ok_weaken[OF S(3)]) (use S(1) in \<open>auto simp: S'_def\<close>)
    then have e: "emit_safe (fst acc @ [empty_state]) S'"
      using S(1,2) by (auto simp: emit_safe_def frag_ok_append S'_def)
    from assms(2) 3 have r: "add_ends (fst acc @ [empty_state]) (snd acc) (length (fst acc)) = Inr tbl"
      by (simp add: union_nfas_def Let_def acc_def)
    from emit_safe_add_ends[OF r e] show ?thesis by (auto simp: safe_def S'_def)
  qed
qed

lemma safe_keyword_table:
  "safe [\<lparr>eps = None, emit = None, edges = [(Lit k, 1)]\<rparr>,
         \<lparr>eps = Some [2], emit = None, edges = []\<rparr>,
         \<lparr>eps = None, emit = Some (Keyword k), edges = []\<rparr>]"
  unfolding safe_def emit_safe_def
  by (rule exI[of _ "{0}"]) (simp add: frag_ok_Cons state_ok_def eps_list_def)

lemma safe_variable_table: "safe (variable_table types)"
  unfolding safe_def emit_safe_def variable_table_def
  by (rule exI[of _ "{0}"]) (simp add: frag_ok_Cons state_ok_def eps_list_def)

lemma sequence_Inr_set:
  assumes "sequence (map f xs) = Inr ys" "y \<in> set ys"
  shows "\<exists>x\<in>set xs. f x = Inr y"
proof -
  from assms(1) have "map f xs = map Inr ys" by (simp add: sequence_Inr_iff)
  from map_eq_map_right[OF this assms(2)] show ?thesis .
qed

lemma then_build_Inr: "then_build r f = Inr y \<longleftrightarrow> (\<exists>x. r = Inr x \<and> f x = Inr y)"
  by (cases r) (auto simp: then_build_def)

lemma inv_keyword_table:
  "table_inv [\<lparr>eps = None, emit = None, edges = [(Lit k, 1)]\<rparr>,
        \<lparr>eps = Some [2], emit = None, edges = []\<rparr>,
        \<lparr>eps = None, emit = Some (Keyword k), edges = []\<rparr>]"
  by (simp add: table_inv_def terminal_def good_def exclusive_def)

lemma inv_variable_table: "table_inv (variable_table types)"
  by (simp add: variable_table_def table_inv_def terminal_def good_def exclusive_def)

lemma concat_compiled:
  assumes "\<And>a t. a \<in> set as \<Longrightarrow> to_nfa a = Inr t \<Longrightarrow> table_inv t \<and> safe t"
    and "then_build (sequence (map to_nfa as)) concat_nfas = Inr tbl"
  shows "table_inv tbl \<and> safe tbl"
proof -
  from assms(2) obtain ts where ts: "sequence (map to_nfa as) = Inr ts" "concat_nfas ts = Inr tbl"
    by (auto simp: then_build_Inr)
  have "table_inv t \<and> safe t" if "t \<in> set ts" for t
    using sequence_Inr_set[OF ts(1) that] assms(1) by blast
  then have "\<forall>t\<in>set ts. table_inv t" "\<forall>t\<in>set ts. safe t" by auto
  with ts(2) show ?thesis using inv_concat_nfas safe_concat_nfas by blast
qed

lemma to_nfa_compiled: "to_nfa g = Inr tbl \<Longrightarrow> table_inv tbl \<and> safe tbl"
proof (induction g arbitrary: tbl)
  case (Keyword k)
  then show ?case
    using inv_keyword_table[of k] safe_keyword_table[of k]
    by (simp add: to_nfa_Keyword del: to_nfa.simps)
next
  case (Variable types)
  then show ?case
    using inv_variable_table[of types] safe_variable_table[of types]
    by (simp add: to_nfa_Variable_table del: to_nfa.simps)
next
  case (Group as alternatives)
  show ?case
  proof (cases "as = []")
    case False
    with Group.prems have "then_build (sequence (map to_nfa as)) concat_nfas = Inr tbl" by simp
    from concat_compiled[OF _ this] Group.IH(1) show ?thesis by blast
  next
    case True
    with Group.prems obtain us where
      us: "sequence (map (\<lambda>alt. then_build (sequence (map to_nfa alt)) concat_nfas) alternatives)
            = Inr us" "union_nfas us = Inr tbl"
      by (auto simp: then_build_Inr)
    have "table_inv u \<and> safe u" if "u \<in> set us" for u
    proof -
      from sequence_Inr_set[OF us(1) that] obtain alt where alt: "alt \<in> set alternatives"
        "then_build (sequence (map to_nfa alt)) concat_nfas = Inr u" by auto
      from concat_compiled[OF _ alt(2)] Group.IH(2)[OF alt(1)] show ?thesis by blast
    qed
    then have "\<forall>u\<in>set us. table_inv u" "\<forall>u\<in>set us. safe u" by auto
    with us(2) show ?thesis using inv_union safe_union by blast
  qed
next
  case (Star g)
  from Star.prems obtain t where t: "to_nfa g = Inr t" "star t = Inr tbl"
    by (auto simp: then_build_Inr)
  from Star.IH[OF t(1)] have "list_all good t" "safe t" by (simp_all add: table_inv_def)
  with t(2) show ?case using inv_star safe_star by blast
next
  case (Plus g)
  from Plus.prems obtain t where t: "to_nfa g = Inr t" "plus_nfa t = Inr tbl"
    by (auto simp: then_build_Inr)
  from Plus.IH[OF t(1)] have "list_all good t" "safe t" by (simp_all add: table_inv_def)
  with t(2) show ?case using inv_plus safe_plus by blast
next
  case (Optional g)
  from Optional.prems obtain t where t: "to_nfa g = Inr t" "optional t = Inr tbl"
    by (auto simp: then_build_Inr)
  from Optional.IH[OF t(1)] have "list_all good t" "safe t" by (simp_all add: table_inv_def)
  with t(2) show ?case using inv_optional safe_optional by blast
qed

text \<open>
  Claim C1. For every grammar string that compiles, every token sequence and every
  bound on the recursion depth: \<^verbatim>\<open>matches\<close> returns true if and only if \<^verbatim>\<open>annotate\<close>
  returns a non-empty list of interpretations; \<^verbatim>\<open>matches\<close> returns false if and only if
  \<^verbatim>\<open>annotate\<close> raises \<^verbatim>\<open>ParseError\<close>; and \<^verbatim>\<open>annotate\<close> never returns an empty list. (When
  one of them raises \<^verbatim>\<open>RecursionError\<close>, on a grammar with an epsilon cycle such as
  \<^verbatim>\<open>(a*)*\<close>, so does the other.)
\<close>

theorem matches_iff_annotate:
  assumes "compile g = Inr tbl"
  shows "(matches depth tbl toks = Inr True
          \<longleftrightarrow> (\<exists>stacks. annotate depth tbl toks = Inr stacks \<and> stacks \<noteq> []))
     \<and> (matches depth tbl toks = Inr False
          \<longleftrightarrow> (\<exists>fs. annotate depth tbl toks = Inl (ParseError fs)))
     \<and> annotate depth tbl toks \<noteq> Inr []"
proof -
  from assms obtain ast where "parse_grammar g = Inr ast" "to_nfa ast = Inr tbl"
    by (auto simp: compile_def then_build_Inr)
  from to_nfa_compiled[OF this(2)] obtain S where "emit_safe tbl S" "list_all good tbl"
    by (auto simp: safe_def table_inv_def)
  from table_matches_iff_annotate[OF this] show ?thesis .
qed

theorem matches_iff_annotate_witness:
  "compile ''take (ITEM)'' = Inr take_item
   \<and> (matches 4 take_item [''take'', ''sword''] = Inr True
          \<longleftrightarrow> (\<exists>stacks. annotate 4 take_item [''take'', ''sword''] = Inr stacks \<and> stacks \<noteq> []))
   \<and> (matches 4 take_item [''take'', ''sword''] = Inr False
          \<longleftrightarrow> (\<exists>fs. annotate 4 take_item [''take'', ''sword''] = Inl (ParseError fs)))
   \<and> annotate 4 take_item [''take'', ''sword''] \<noteq> Inr []"
  using matches_iff_annotate [OF compile_take_item, of 4 "[''take'', ''sword'']"]
    compile_take_item
  by simp

section \<open>Failure records\<close>

lemma to_nfa_Keyword_table: "to_nfa (Keyword k) = Inr (keyword_table k)"
  by (simp add: builder_defs keyword_table_def)

lemma collect_single: "collect [r] = r"
  by (cases r) (simp_all add: collect_def)

lemma consuming_state:
  assumes "c < length T" "c \<noteq> length T - 1"
    and "T ! c = \<lparr>eps = None, emit = None, edges = [(Lit k, n)]\<rparr>"
  shows "trans_emit (Suc d) T c (Lit t) ems = Inr (if t = k then [(ems, n)] else [])"
    and "trans_expected (Suc d) T c (Lit t) = Inr (if t = k then [] else [Lit k])"
  using assms by (simp_all add: consume_def state_keys_def)

lemma after_keyword:
  assumes a: "a < length T" "T ! a = \<lparr>eps = Some [b], emit = None, edges = []\<rparr>"
    and b: "b < length T" "eps (T ! b) = Some [c]" "emit (T ! b) = Some r"
    and c: "c < length T" "c \<noteq> length T - 1"
      "T ! c = \<lparr>eps = None, emit = None, edges = [(Lit k, n)]\<rparr>"
  shows "trans_emit (Suc (Suc (Suc d))) T a (Lit t) [] = Inr (if t = k then [([r], n)] else [])"
    and "trans_expected (Suc (Suc (Suc d))) T a (Lit t) = Inr (if t = k then [] else [Lit k])"
proof -
  have "trans_emit (Suc (Suc (Suc d))) T a (Lit t) [] = trans_emit (Suc (Suc d)) T b (Lit t) []"
    using a by (simp add: collect_single del: trans_emit.simps(2) add: trans_emit.simps(2)[of "Suc (Suc d)"])
  also have "\<dots> = trans_emit (Suc d) T c (Lit t) [r]"
    using b by (simp add: collect_single del: trans_emit.simps(2) add: trans_emit.simps(2)[of "Suc d"])
  finally show "trans_emit (Suc (Suc (Suc d))) T a (Lit t) [] = Inr (if t = k then [([r], n)] else [])"
    using consuming_state(1)[OF c] by simp
  have "trans_expected (Suc (Suc (Suc d))) T a (Lit t) = trans_expected (Suc (Suc d)) T b (Lit t)"
    using a by (simp add: collect_single del: trans_expected.simps(2) add: trans_expected.simps(2)[of "Suc (Suc d)"])
  also have "\<dots> = trans_expected (Suc d) T c (Lit t)"
    using b by (simp add: collect_single del: trans_expected.simps(2) add: trans_expected.simps(2)[of "Suc d"])
  finally show "trans_expected (Suc (Suc (Suc d))) T a (Lit t) = Inr (if t = k then [] else [Lit k])"
    using consuming_state(2)[OF c] by simp
qed

lemma chainD:
  assumes "chain T ws" "j < length ws"
  shows "T ! (3 * j) = \<lparr>eps = None, emit = None, edges = [(Lit (ws ! j), 3 * j + 1)]\<rparr>"
    and "T ! (3 * j + 1) = \<lparr>eps = Some [3 * j + 2], emit = None, edges = []\<rparr>"
    and "emit (T ! (3 * j + 2)) = Some (Keyword (ws ! j))"
    and "edges (T ! (3 * j + 2)) = []"
    and "j + 1 < length ws \<Longrightarrow> eps (T ! (3 * j + 2)) = Some [3 * j + 3]"
    and "3 * j + 2 < length T"
  using assms unfolding chain_def by (blast, blast, blast, blast, blast, arith)

lemma concat_step_Inr:
  assumes "concat_step acc nxt = Inr acc'"
  shows "acc \<noteq> []"
    and "\<exists>st'. add_epsilon (last acc) (length acc) = Inr st'
           \<and> acc' = butlast acc @ [st'] @ shift_table (length acc) nxt"
proof -
  from assms obtain s1 where 1: "add_epsilon_last acc (length acc) = Inr s1"
    and t: "acc' = s1 @ shift_table (length acc) nxt"
    by (auto simp: concat_step_def Let_def split: sum.splits)
  from add_epsilon_last_Inr[OF 1] t show "acc \<noteq> []"
    and "\<exists>st'. add_epsilon (last acc) (length acc) = Inr st'
           \<and> acc' = butlast acc @ [st'] @ shift_table (length acc) nxt"
    by auto
qed

lemma concat_step_prefix:
  assumes "concat_step acc nxt = Inr acc'"
  shows "length acc' = length acc + length nxt"
    and "\<And>i. i + 1 < length acc \<Longrightarrow> acc' ! i = acc ! i"
    and "emit (acc' ! (length acc - 1)) = emit (acc ! (length acc - 1))"
    and "edges (acc' ! (length acc - 1)) = []"
    and "eps (acc ! (length acc - 1)) = None \<Longrightarrow> eps (acc' ! (length acc - 1)) = Some [length acc]"
    and "\<And>r. r < length nxt \<Longrightarrow> acc' ! (length acc + r) = shift_state (length acc) (nxt ! r)"
proof -
  from concat_step_Inr[OF assms] obtain st' where ne: "acc \<noteq> []"
    and st: "add_epsilon (last acc) (length acc) = Inr st'"
    and t: "acc' = butlast acc @ [st'] @ shift_table (length acc) nxt" by auto
  have lb: "length (butlast acc) = length acc - 1" by simp
  have l: "last acc = acc ! (length acc - 1)" using ne by (simp add: last_conv_nth)
  from ne show "length acc' = length acc + length nxt" unfolding t by simp
  show "\<And>i. i + 1 < length acc \<Longrightarrow> acc' ! i = acc ! i"
    unfolding t by (simp add: nth_append nth_butlast)
  have at: "acc' ! (length acc - 1) = st'" unfolding t by (simp add: nth_append)
  from add_epsilon_Inr[OF st] at l
  show "emit (acc' ! (length acc - 1)) = emit (acc ! (length acc - 1))"
    and "edges (acc' ! (length acc - 1)) = []"
    and "eps (acc ! (length acc - 1)) = None \<Longrightarrow> eps (acc' ! (length acc - 1)) = Some [length acc]"
    by simp_all
  have t2: "acc' = (butlast acc @ [st']) @ shift_table (length acc) nxt" unfolding t by simp
  have l2: "length (butlast acc @ [st']) = length acc" using ne by simp
  show "acc' ! (length acc + r) = shift_state (length acc) (nxt ! r)" if "r < length nxt" for r
  proof -
    have "acc' ! (length (butlast acc @ [st']) + r) = shift_table (length acc) nxt ! r"
      unfolding t2 by (rule nth_append_length_plus)
    with that show ?thesis unfolding l2 by (simp add: shift_table_def)
  qed
qed

lemma concat_loop_prefix:
  assumes "concat_loop acc tabs = Inr T" "acc \<noteq> []"
  shows "length acc \<le> length T
     \<and> (\<forall>i. i + 1 < length acc \<longrightarrow> T ! i = acc ! i)
     \<and> emit (T ! (length acc - 1)) = emit (acc ! (length acc - 1))
     \<and> (edges (acc ! (length acc - 1)) = [] \<longrightarrow> edges (T ! (length acc - 1)) = [])"
  using assms
proof (induction tabs arbitrary: acc)
  case Nil
  then show ?case by simp
next
  case (Cons nxt tabs)
  from Cons.prems(1) obtain a1 where 1: "concat_step acc nxt = Inr a1"
    and 2: "concat_loop a1 tabs = Inr T" by (auto split: sum.splits)
  note p = concat_step_prefix[OF 1]
  from p(1) Cons.prems(2) have ne1: "a1 \<noteq> []" by auto
  note ih = Cons.IH[OF 2 ne1]
  have le: "length acc \<le> length T" using ih p(1) by simp
  have pre: "T ! i = acc ! i" if "i + 1 < length acc" for i
    using that ih p(1) p(2)[OF that] by simp
  have lst: "emit (T ! (length acc - 1)) = emit (acc ! (length acc - 1))
      \<and> edges (T ! (length acc - 1)) = []"
  proof (cases "nxt = []")
    case True
    with p(1) have "length a1 = length acc" by simp
    with ih p(3,4) show ?thesis by simp
  next
    case False
    with p(1) Cons.prems(2) have "(length acc - 1) + 1 < length a1" by (cases acc) auto
    with ih have "T ! (length acc - 1) = a1 ! (length acc - 1)" by blast
    with p(3,4) show ?thesis by simp
  qed
  from le pre lst show ?case by blast
qed

lemma chain_keyword_table: "chain (keyword_table w) [w]"
  by (simp add: chain_def keyword_table_def)

lemma chain_step:
  assumes ch: "chain acc ws" and len: "length acc = 3 * length ws" and ne: "ws \<noteq> []"
    and e: "eps (acc ! (length acc - 1)) = None"
    and st: "concat_step acc (keyword_table x) = Inr acc'"
  shows "chain acc' (ws @ [x])" "length acc' = 3 * length (ws @ [x])"
    "eps (acc' ! (length acc' - 1)) = None"
proof -
  let ?m = "length ws"
  note p = concat_step_prefix[OF st]
  from p(1) len show l': "length acc' = 3 * length (ws @ [x])"
    by (simp add: keyword_table_def)
  have m: "0 < ?m" using ne by simp
  have new: "acc' ! (3 * ?m) = \<lparr>eps = None, emit = None, edges = [(Lit x, 3 * ?m + 1)]\<rparr>"
    "acc' ! (3 * ?m + 1) = \<lparr>eps = Some [3 * ?m + 2], emit = None, edges = []\<rparr>"
    "acc' ! (3 * ?m + 2) = \<lparr>eps = None, emit = Some (Keyword x), edges = []\<rparr>"
    using p(6)[of 0] p(6)[of 1] p(6)[of 2] len
    by (simp_all add: keyword_table_def shift_state_def)
  from new(3) l' show "eps (acc' ! (length acc' - 1)) = None"
    by (simp add: numeral_3_eq_3)
  have old: "acc' ! i = acc ! i" if "i + 1 < 3 * ?m" for i
    using p(2)[of i] that len by simp
  have lastold: "emit (acc' ! (3 * ?m - 1)) = emit (acc ! (3 * ?m - 1))"
    "edges (acc' ! (3 * ?m - 1)) = []" "eps (acc' ! (3 * ?m - 1)) = Some [3 * ?m]"
    using p(3,4) p(5)[OF e] len by simp_all
  show "chain acc' (ws @ [x])"
    unfolding chain_def
  proof (intro conjI allI impI)
    show "3 * length (ws @ [x]) \<le> length acc'" using l' by simp
  next
    fix j assume j: "j < length (ws @ [x])"
    show "acc' ! (3 * j) = \<lparr>eps = None, emit = None, edges = [(Lit ((ws @ [x]) ! j), 3 * j + 1)]\<rparr>"
    proof (cases "j < ?m")
      case True
      then have "acc' ! (3 * j) = acc ! (3 * j)" by (intro old) arith
      with chainD(1)[OF ch True] True show ?thesis by (simp add: nth_append)
    next
      case False
      with j have "j = ?m" by simp
      with new(1) show ?thesis by (simp add: nth_append)
    qed
    show "acc' ! (3 * j + 1) = \<lparr>eps = Some [3 * j + 2], emit = None, edges = []\<rparr>"
    proof (cases "j < ?m")
      case True
      then have "acc' ! (3 * j + 1) = acc ! (3 * j + 1)" by (intro old) arith
      with chainD(2)[OF ch True] show ?thesis by simp
    next
      case False
      with j have "j = ?m" by simp
      with new(2) show ?thesis by simp
    qed
    show "emit (acc' ! (3 * j + 2)) = Some (Keyword ((ws @ [x]) ! j))"
    proof (cases "j < ?m")
      case True
      show ?thesis
      proof (cases "j + 1 < ?m")
        case True
        then have "acc' ! (3 * j + 2) = acc ! (3 * j + 2)" by (intro old) arith
        with chainD(3)[OF ch \<open>j < ?m\<close>] \<open>j < ?m\<close> show ?thesis by (simp add: nth_append)
      next
        case False
        with \<open>j < ?m\<close> have "3 * j + 2 = 3 * ?m - 1" by arith
        with lastold(1) chainD(3)[OF ch \<open>j < ?m\<close>] \<open>j < ?m\<close> show ?thesis
          by (simp add: nth_append)
      qed
    next
      case False
      with j have "j = ?m" by simp
      with new(3) show ?thesis by (simp add: nth_append)
    qed
    show "edges (acc' ! (3 * j + 2)) = []"
    proof (cases "j < ?m")
      case True
      show ?thesis
      proof (cases "j + 1 < ?m")
        case True
        then have "acc' ! (3 * j + 2) = acc ! (3 * j + 2)" by (intro old) arith
        with chainD(4)[OF ch \<open>j < ?m\<close>] show ?thesis by simp
      next
        case False
        with \<open>j < ?m\<close> have "3 * j + 2 = 3 * ?m - 1" by arith
        with lastold(2) show ?thesis by simp
      qed
    next
      case False
      with j have "j = ?m" by simp
      with new(3) show ?thesis by simp
    qed
  next
    fix j assume j: "j < length (ws @ [x])" and j1: "j + 1 < length (ws @ [x])"
    then have jm: "j < ?m" by simp
    show "eps (acc' ! (3 * j + 2)) = Some [3 * j + 3]"
    proof (cases "j + 1 < ?m")
      case True
      then have "acc' ! (3 * j + 2) = acc ! (3 * j + 2)" by (intro old) arith
      with chainD(5)[OF ch jm True] show ?thesis by simp
    next
      case False
      with jm have "3 * j + 2 = 3 * ?m - 1" "3 * j + 3 = 3 * ?m" by arith+
      with lastold(3) show ?thesis by simp
    qed
  qed
qed

lemma chain_prefix:
  assumes ch: "chain acc ws" and len: "length acc = 3 * length ws" and ne: "ws \<noteq> []"
    and lp: "concat_loop acc tabs = Inr T"
  shows "chain T ws"
proof -
  from len ne have ane: "acc \<noteq> []" by auto
  from concat_loop_prefix[OF lp ane]
  have le: "length acc \<le> length T"
    and pre: "\<And>i. i + 1 < length acc \<Longrightarrow> T ! i = acc ! i"
    and em: "emit (T ! (length acc - 1)) = emit (acc ! (length acc - 1))"
    and ed: "edges (acc ! (length acc - 1)) = [] \<Longrightarrow> edges (T ! (length acc - 1)) = []"
    by blast+
  show ?thesis
    unfolding chain_def
  proof (intro conjI allI impI)
    show "3 * length ws \<le> length T" using le len by simp
  next
    fix j assume j: "j < length ws"
    have "T ! (3 * j) = acc ! (3 * j)" using j len by (intro pre) arith
    with chainD(1)[OF ch j]
    show "T ! (3 * j) = \<lparr>eps = None, emit = None, edges = [(Lit (ws ! j), 3 * j + 1)]\<rparr>"
      by simp
    have "T ! (3 * j + 1) = acc ! (3 * j + 1)" using j len by (intro pre) arith
    with chainD(2)[OF ch j]
    show "T ! (3 * j + 1) = \<lparr>eps = Some [3 * j + 2], emit = None, edges = []\<rparr>" by simp
    have "emit (T ! (3 * j + 2)) = emit (acc ! (3 * j + 2))
        \<and> (edges (acc ! (3 * j + 2)) = [] \<longrightarrow> edges (T ! (3 * j + 2)) = [])"
    proof (cases "j + 1 < length ws")
      case True
      then have "T ! (3 * j + 2) = acc ! (3 * j + 2)" using len by (intro pre) arith
      then show ?thesis by simp
    next
      case False
      with j len have "3 * j + 2 = length acc - 1" by arith
      with em ed show ?thesis by simp
    qed
    with chainD(3,4)[OF ch j]
    show "emit (T ! (3 * j + 2)) = Some (Keyword (ws ! j))" "edges (T ! (3 * j + 2)) = []"
      by simp_all
  next
    fix j assume j: "j < length ws" and j1: "j + 1 < length ws"
    then have "T ! (3 * j + 2) = acc ! (3 * j + 2)" using len by (intro pre) arith
    with chainD(5)[OF ch j j1] show "eps (T ! (3 * j + 2)) = Some [3 * j + 3]" by simp
  qed
qed

lemma chain_loop:
  assumes "chain acc ws" "length acc = 3 * length ws" "ws \<noteq> []"
    and "eps (acc ! (length acc - 1)) = None"
    and "concat_loop acc (map keyword_table ks @ tabs) = Inr T"
  shows "chain T (ws @ ks)"
  using assms
proof (induction ks arbitrary: acc ws)
  case Nil
  then show ?case using chain_prefix by simp
next
  case (Cons x ks)
  from Cons.prems(5) obtain a1 where 1: "concat_step acc (keyword_table x) = Inr a1"
    and 2: "concat_loop a1 (map keyword_table ks @ tabs) = Inr T"
    by (auto split: sum.splits)
  note s = chain_step[OF Cons.prems(1-4) 1]
  from Cons.IH[OF s(1) s(2) _ s(3) 2] show ?case by simp
qed

lemma sequence_append:
  "sequence (xs @ ys) =
     (case sequence xs of
        Inl e \<Rightarrow> Inl e
      | Inr a \<Rightarrow> (case sequence ys of Inl e \<Rightarrow> Inl e | Inr b \<Rightarrow> Inr (a @ b)))"
  by (induction xs) (auto split: sum.splits)

lemma sequence_keywords: "sequence (map to_nfa (map Keyword ws)) = Inr (map keyword_table ws)"
  by (induction ws) (simp_all add: to_nfa_Keyword_table del: to_nfa.simps)

lemma to_nfa_chain:
  assumes "to_nfa (Group (map Keyword ws @ rest) []) = Inr T" "ws \<noteq> []"
  shows "chain T ws"
proof -
  obtain w ws' where ws: "ws = w # ws'" using assms(2) by (cases ws) auto
  from assms(1) ws obtain tabs where
    "sequence (map to_nfa (map Keyword ws @ rest)) = Inr tabs" "concat_nfas tabs = Inr T"
    by (auto simp: then_build_Inr)
  then have "sequence (map to_nfa (map Keyword ws) @ map to_nfa rest) = Inr tabs"
    "concat_nfas tabs = Inr T" by (simp_all only: map_append)
  then have "(case sequence (map to_nfa rest) of Inl e \<Rightarrow> Inl e
      | Inr b \<Rightarrow> Inr (map keyword_table ws @ b)) = Inr tabs" "concat_nfas tabs = Inr T"
    by (simp_all only: sequence_append sequence_keywords sum.case)
  then obtain rtabs where "concat_nfas (map keyword_table ws @ rtabs) = Inr T"
    by (auto split: sum.splits)
  then have lp: "concat_loop (keyword_table w) (map keyword_table ws' @ rtabs) = Inr T"
    by (simp add: ws concat_nfas_def)
  have "chain T ([w] @ ws')"
    by (rule chain_loop[OF chain_keyword_table _ _ _ lp]) (simp_all add: keyword_table_def)
  then show ?thesis by (simp add: ws)
qed

text \<open>Running \<^verbatim>\<open>annotate\<close> along a chain of keywords.\<close>

lemma chain_first_step:
  assumes "chain T ws" "0 < length ws"
  shows "annotate_step (Suc d) T [(0, [])] (Lit (ws ! 0)) = Inr [(1, [Tok (Lit (ws ! 0))])]"
proof -
  from chainD(1,6)[OF assms] have c: "0 < length T" "0 \<noteq> length T - 1"
    "T ! 0 = \<lparr>eps = None, emit = None, edges = [(Lit (ws ! 0), 1)]\<rparr>" by auto
  from consuming_state(1)[OF c, where d = d and t = "ws ! 0" and ems = "[]"] show ?thesis
    by (simp add: annotate_step_def advance_path_def collect_single push_path_def
        del: trans_emit.simps)
qed

lemma chain_hop:
  assumes "chain T ws" "Suc i < length ws"
  shows "trans_emit (Suc (Suc (Suc d))) T (3 * i + 1) (Lit t) []
       = Inr (if t = ws ! Suc i then [([Keyword (ws ! i)], 3 * Suc i + 1)] else [])"
    and "trans_expected (Suc (Suc (Suc d))) T (3 * i + 1) (Lit t)
       = Inr (if t = ws ! Suc i then [] else [Lit (ws ! Suc i)])"
proof -
  from assms(2) have i: "i < length ws" "i + 1 < length ws" by simp_all
  note a = chainD(2,3,5,6)[OF assms(1) i(1)]
  note c = chainD(1,6)[OF assms(1) assms(2)]
  have 1: "3 * i + 1 < length T" "3 * i + 2 < length T" using a(4) by simp_all
  have 2: "eps (T ! (3 * i + 2)) = Some [3 * Suc i]" using a(3)[OF i(2)] by simp
  have 3: "3 * Suc i < length T" "3 * Suc i \<noteq> length T - 1" using c(2) by simp_all
  from after_keyword[OF 1(1) a(1) 1(2) 2 a(2) 3 c(1), where d = d and t = t]
  show "trans_emit (Suc (Suc (Suc d))) T (3 * i + 1) (Lit t) []
       = Inr (if t = ws ! Suc i then [([Keyword (ws ! i)], 3 * Suc i + 1)] else [])"
    and "trans_expected (Suc (Suc (Suc d))) T (3 * i + 1) (Lit t)
       = Inr (if t = ws ! Suc i then [] else [Lit (ws ! Suc i)])"
    by simp_all
qed

lemma chain_run:
  assumes "chain T ws"
  shows "i < length ws \<Longrightarrow>
    \<exists>st. annotate_loop (Suc (Suc (Suc d))) T [(0, [])] (map Lit (take (Suc i) ws))
           = Inr [(3 * i + 1, st)]"
proof (induction i)
  case 0
  then have "take (Suc 0) ws = [ws ! 0]" by (cases ws) auto
  with chain_first_step[OF assms 0, of "Suc (Suc d)"] show ?case
    by (simp del: annotate_loop.simps add: annotate_loop.simps(1) annotate_loop.simps(2)[of _ _ _ "Lit (ws ! 0)" "[]"])
next
  case (Suc i)
  then obtain st where st: "annotate_loop (Suc (Suc (Suc d))) T [(0, [])] (map Lit (take (Suc i) ws))
           = Inr [(3 * i + 1, st)]" by auto
  from Suc.prems have tk: "take (Suc (Suc i)) ws = take (Suc i) ws @ [ws ! Suc i]"
    by (simp add: take_Suc_conv_app_nth)
  from chain_hop(1)[OF assms Suc.prems, where d = d and t = "ws ! Suc i"]
  have "\<exists>st'. annotate_step (Suc (Suc (Suc d))) T [(3 * i + 1, st)] (Lit (ws ! Suc i))
      = Inr [(3 * Suc i + 1, st')]"
    by (simp add: annotate_step_def advance_path_def collect_single push_path_def
        del: trans_emit.simps)
  then obtain st' where "annotate_step (Suc (Suc (Suc d))) T [(3 * i + 1, st)] (Lit (ws ! Suc i))
      = Inr [(3 * Suc i + 1, st')]" by blast
  then show ?case unfolding tk by (simp add: annotate_loop_append st del: annotate_step_def)
qed

lemma chain_mismatch:
  assumes ch: "chain T (ks @ [k])" and t: "t \<noteq> k" and d: "3 \<le> depth"
  shows "annotate depth T (ks @ t # ts) = Inl (ParseError {Fail {Lit k} (Lit t)})"
proof -
  from d obtain d' where "depth = 3 + d'" using le_Suc_ex by blast
  then have dd: "depth = Suc (Suc (Suc d'))" by simp
  let ?n = "length ks"
  have "\<exists>s st. annotate_loop depth T [(0, [])] (map Lit ks) = Inr [(s, st)]
      \<and> trans_emit depth T s (Lit t) [] = Inr []
      \<and> trans_expected depth T s (Lit t) = Inr [Lit k]"
  proof (cases ks)
    case Nil
    from chainD(1,6)[OF ch, of 0] Nil have c: "0 < length T" "0 \<noteq> length T - 1"
      "T ! 0 = \<lparr>eps = None, emit = None, edges = [(Lit k, 1)]\<rparr>" by auto
    from consuming_state(1)[OF c, where d = "Suc (Suc d')" and t = t and ems = "[]"]
      consuming_state(2)[OF c, where d = "Suc (Suc d')" and t = t] t Nil show ?thesis
      unfolding dd by (simp del: trans_emit.simps trans_expected.simps)
  next
    case (Cons x xs)
    then have n: "?n - 1 < length (ks @ [k])" "Suc (?n - 1) < length (ks @ [k])"
      "take (Suc (?n - 1)) (ks @ [k]) = ks" "(ks @ [k]) ! Suc (?n - 1) = k" by simp_all
    from chain_run[OF ch n(1), of d'] n(3) obtain st
      where "annotate_loop depth T [(0, [])] (map Lit ks) = Inr [(3 * (?n - 1) + 1, st)]"
      unfolding dd by auto
    with chain_hop[OF ch n(2), where d = d' and t = t] n(4) t show ?thesis unfolding dd by auto
  qed
  then obtain s st where r: "annotate_loop depth T [(0, [])] (map Lit ks) = Inr [(s, st)]"
    and e: "trans_emit depth T s (Lit t) [] = Inr []"
    and x: "trans_expected depth T s (Lit t) = Inr [Lit k]" by blast
  from e have "list_all (\<lambda>p. trans_emit depth T (fst p) (Lit t) [] = Inr []) [(s, st)]" by simp
  from annotate_step_dead[OF this] x
  have "annotate_step depth T [(s, st)] (Lit t) = Inl (ParseError {Fail {Lit k} (Lit t)})"
    by (simp add: expected_of_def)
  with r have "annotate_loop depth T [(0, [])] (map Lit ks @ Lit t # (map Lit ts @ [END]))
      = Inl (ParseError {Fail {Lit k} (Lit t)})"
    by (simp add: annotate_loop_append)
  then show ?thesis by (simp add: annotate_def)
qed

lemma keywords_then_mismatch:
  assumes "to_nfa (Group (map Keyword ks @ Keyword k # rest) []) = Inr T" "t \<noteq> k" "3 \<le> depth"
  shows "annotate depth T (ks @ t # ts) = Inl (ParseError {Fail {Lit k} (Lit t)})"
proof -
  have "map Keyword ks @ Keyword k # rest = map Keyword (ks @ [k]) @ rest" by simp
  with assms(1) have "to_nfa (Group (map Keyword (ks @ [k]) @ rest) []) = Inr T" by metis
  from to_nfa_chain[OF this] have "chain T (ks @ [k])" by simp
  from chain_mismatch[OF this assms(2,3)] show ?thesis .
qed

lemma compile_take_item_now: "compile ''take (ITEM) now'' = Inr take_item_now"
  by (simp add: compile_def parser_defs builder_defs take_item_now_def)

lemma to_nfa_go_to_place:
  "to_nfa (Group (map Keyword [''go''] @ Keyword ''to'' # [Group [Variable [''PLACE'']] []]) [])
     = Inr go_to_place"
  by (simp add: builder_defs go_to_place_def)

lemma compile_go_to_place: "compile ''go to (PLACE)'' = Inr go_to_place"
  by (simp add: compile_def parser_defs builder_defs go_to_place_def)

lemma take_item_now_later:
  "annotate 4 take_item_now [''take'', ''sword'', ''later'']
     = Inl (ParseError {Fail {ANY, Lit ''now''} END})"
  by (simp add: take_item_now_def run_defs eval_nat_numeral insert_commute)

text \<open>
  Claim C4, as stated, fails: the grammar \<^verbatim>\<open>take (ITEM) now\<close> requires the keyword
  \<^verbatim>\<open>now\<close>, and on \<^verbatim>\<open>['take', 'sword', 'later']\<close> the \<^verbatim>\<open>Variable\<close> consumes the mismatched
  word \<^verbatim>\<open>later\<close>; the \<^verbatim>\<open>ParseError\<close> is raised at the end of the input, and the received
  token of its record is \<^verbatim>\<open>Token.END\<close>, not \<^verbatim>\<open>later\<close>.
\<close>

theorem keyword_after_variable_counterexample:
  "compile ''take (ITEM) now'' = Inr take_item_now
   \<and> annotate 4 take_item_now [''take'', ''sword'', ''later'']
       = Inl (ParseError {Fail {ANY, Lit ''now''} END})
   \<and> received (Fail {ANY, Lit ''now''} END) \<noteq> Lit ''later''"
  by (simp add: compile_take_item_now take_item_now_later)

text \<open>
  Claim C4, amended. If the paths alive after a prefix of the input (with \<^verbatim>\<open>Token.END\<close>
  appended) all yield no successor on the next token, \<^verbatim>\<open>annotate\<close> raises \<^verbatim>\<open>ParseError\<close>
  with the set of records \<^verbatim>\<open>Fail(expected, received)\<close>, one for each of those paths:
  \<open>expected\<close> is what \<^verbatim>\<open>trans_expected\<close> yields for the path's state and \<open>received\<close> is the
  failing token. In particular, for a grammar that starts with a sequence of literal
  keywords (followed by anything), an input that agrees with the keywords before one of
  them and has another word \<open>t\<close> in the place of that keyword \<open>k\<close> raises \<^verbatim>\<open>ParseError\<close>
  with the one record whose expected set is \<open>{k}\<close> and whose received token is \<open>t\<close>;
  so does the grammar that is the single keyword \<open>k\<close> on the input \<open>t\<close>. (Where a
  \<^verbatim>\<open>Variable\<close> precedes the keyword, the mismatched word is consumed by the \<^verbatim>\<open>Variable\<close>.)
\<close>

theorem annotate_failure_records:
  "(map Lit toks @ [END] = pre @ tok # post
      \<and> annotate_loop depth tbl [(0, [])] pre = Inr paths
      \<and> list_all (\<lambda>p. trans_emit depth tbl (fst p) tok [] = Inr []) paths
    \<longrightarrow> annotate depth tbl toks
         = Inl (ParseError ((\<lambda>p. Fail (expected_of depth tbl (fst p) tok) tok) ` set paths)))
   \<and> (to_nfa (Group (map Keyword ks @ Keyword k # rest) []) = Inr kws
      \<and> t \<noteq> k \<and> 3 \<le> depth
    \<longrightarrow> annotate depth kws (ks @ t # ts) = Inl (ParseError {Fail {Lit k} (Lit t)}))
   \<and> (islower k \<and> \<not> list_ex is_operator_char k \<and> \<not> list_ex is_space_char k
      \<and> t \<noteq> k \<and> 0 < depth
    \<longrightarrow> (\<exists>kw. compile k = Inr kw
           \<and> annotate depth kw [t] = Inl (ParseError {Fail {Lit k} (Lit t)})))"
proof (intro conjI impI)
  assume a: "map Lit toks @ [END] = pre @ tok # post
      \<and> annotate_loop depth tbl [(0, [])] pre = Inr paths
      \<and> list_all (\<lambda>p. trans_emit depth tbl (fst p) tok [] = Inr []) paths"
  then have "annotate_loop depth tbl [(0, [])] (pre @ tok # post)
      = Inl (ParseError ((\<lambda>p. Fail (expected_of depth tbl (fst p) tok) tok) ` set paths))"
    by (simp add: annotate_loop_append annotate_step_dead)
  with a show "annotate depth tbl toks
      = Inl (ParseError ((\<lambda>p. Fail (expected_of depth tbl (fst p) tok) tok) ` set paths))"
    by (simp add: annotate_def)
next
  assume "to_nfa (Group (map Keyword ks @ Keyword k # rest) []) = Inr kws
      \<and> t \<noteq> k \<and> 3 \<le> depth"
  then show "annotate depth kws (ks @ t # ts) = Inl (ParseError {Fail {Lit k} (Lit t)})"
    using keywords_then_mismatch by blast
next
  assume "islower k \<and> \<not> list_ex is_operator_char k \<and> \<not> list_ex is_space_char k
      \<and> t \<noteq> k \<and> 0 < depth"
  then show "\<exists>kw. compile k = Inr kw
      \<and> annotate depth kw [t] = Inl (ParseError {Fail {Lit k} (Lit t)})"
    using compile_keyword[of k] keyword_mismatch[of t k depth] by auto
qed

theorem annotate_failure_records_witness:
  "map Lit [''take''] @ [END] = [Lit ''take''] @ END # []
   \<and> annotate_loop 4 take_item [(0, [])] [Lit ''take''] = Inr [(1, [Tok (Lit ''take'')])]
   \<and> list_all (\<lambda>p. trans_emit 4 take_item (fst p) END [] = Inr []) [(1, [Tok (Lit ''take'')])]
   \<and> annotate 4 take_item [''take''] = Inl (ParseError {Fail {ANY} END})
   \<and> compile ''go to (PLACE)'' = Inr go_to_place
   \<and> to_nfa (Group (map Keyword [''go''] @ Keyword ''to'' # [Group [Variable [''PLACE'']] []]) [])
       = Inr go_to_place
   \<and> ''at'' \<noteq> ''to'' \<and> (3::nat) \<le> 4
   \<and> annotate 4 go_to_place ([''go''] @ ''at'' # [''home''])
       = Inl (ParseError {Fail {Lit ''to''} (Lit ''at'')})
   \<and> islower ''to'' \<and> \<not> list_ex is_operator_char ''to''
   \<and> \<not> list_ex is_space_char ''to'' \<and> (0::nat) < 4
   \<and> (\<exists>kw. compile ''to'' = Inr kw
        \<and> annotate 4 kw [''at''] = Inl (ParseError {Fail {Lit ''to''} (Lit ''at'')}))"
proof -
  note w = annotate_failure_records
    [of "[''take'']" "[Lit ''take'']" END "[]" 4 take_item "[(1, [Tok (Lit ''take'')])]"
        "[''go'']" "''to''" "[Group [Variable [''PLACE'']] []]" go_to_place "''at''" "[''home'']"]
  have h1: "annotate_loop 4 take_item [(0, [])] [Lit ''take''] = Inr [(1, [Tok (Lit ''take'')])]"
    "list_all (\<lambda>p. trans_emit 4 take_item (fst p) END [] = Inr []) [(1, [Tok (Lit ''take'')])]"
    "expected_of 4 take_item 1 END = {ANY}"
    by (simp_all add: take_item_def run_defs expected_of_def eval_nat_numeral)
  have h2: "islower ''to''" "\<not> list_ex is_operator_char ''to''"
    "\<not> list_ex is_space_char ''to''"
    by (simp_all add: parser_defs)
  from w h1 h2 to_nfa_go_to_place compile_go_to_place show ?thesis
    by (simp del: to_nfa.simps)
qed

end
